theory Spec2Isabelle
  imports Main "HOL-Library.Word" "HOL-Library.Code_Target_Nat"
begin

unbundle bit_operations_syntax

section \<open>The heap as bytes\<close>

text \<open>
  The allocator of \<^verbatim>\<open>src/libc/umm_malloc/umm_malloc.c\<close> keeps all its state in one
  contiguous region of bytes. A block is the packed struct \<^verbatim>\<open>umm_block\<close>: a used-header
  of two \<^verbatim>\<open>uint16_t\<close> (\<^verbatim>\<open>next\<close> at byte 0, \<^verbatim>\<open>prev\<close> at byte 2) followed by the body, a
  union of the free-list pointers (\<^verbatim>\<open>next\<close> at byte 4, \<^verbatim>\<open>prev\<close> at byte 6) and the user
  data. The overlay matters, so memory is modelled as bytes, addressed by their offset
  from \<^verbatim>\<open>&UMM_HEAP[0]\<close>; the 16-bit fields are read and written little-endian, as on the
  WebAssembly target of the repository. An access past the end of the heap region is an
  access to the bytes that follow it in linear memory.

  The parameter \<open>B\<close> of every function is \<^verbatim>\<open>UMM_BLOCK_BODY_SIZE\<close>, which is also
  \<^verbatim>\<open>sizeof(umm_block)\<close>; the body is \<open>B - 4\<close> bytes wide. Its definition lives in
  \<^verbatim>\<open>umm_malloc_cfg.h\<close>, which is not part of the sources, so it is a parameter here,
  and the theorems ask for \<open>8 \<le> B\<close>. The macros \<^verbatim>\<open>UMM_CRITICAL_*\<close>, \<^verbatim>\<open>DBGLOG_*\<close>,
  \<^verbatim>\<open>UMM_CHECK_INITIALIZED\<close> and \<^verbatim>\<open>UMM_FRAGMENTATION_METRIC_*\<close> come from the same
  header; they do not touch the heap region of an initialised heap and are left out.
\<close>

type_synonym byte = "8 word"
type_synonym memory = "nat \<Rightarrow> byte"

text \<open>A pointer is \<open>None\<close> for \<^verbatim>\<open>NULL\<close> and \<open>Some a\<close> for the address \<^verbatim>\<open>(uint8_t *)UMM_HEAP + a\<close>.\<close>

type_synonym ptr = "nat option"

text \<open>\<^verbatim>\<open>struct umm_heap_config\<close>, with the bytes of the region in place of \<^verbatim>\<open>pheap\<close>.\<close>

record heap =
  mem :: memory
  heap_size :: nat
  numblocks :: nat

definition rd16 :: "memory \<Rightarrow> nat \<Rightarrow> nat" where
  "rd16 m a = unat (m a) + 256 * unat (m (a + 1))"

definition wr16 :: "memory \<Rightarrow> nat \<Rightarrow> nat \<Rightarrow> memory" where
  "wr16 m a v = m(a := of_nat (v mod 256), a + 1 := of_nat (v div 256 mod 256))"

text \<open>Conversion to \<^verbatim>\<open>uint16_t\<close>, and the difference of two \<^verbatim>\<open>uint16_t\<close> stored in one.\<close>

definition u16 :: "nat \<Rightarrow> nat" where
  "u16 x = x mod 65536"

definition sub16 :: "nat \<Rightarrow> nat \<Rightarrow> nat" where
  "sub16 a b = (a + 65536 - b) mod 65536"

definition UMM_FREELIST_MASK :: nat where
  "UMM_FREELIST_MASK = 32768"

definition UMM_BLOCKNO_MASK :: nat where
  "UMM_BLOCKNO_MASK = 32767"

definition UMM_NBLOCK :: "nat \<Rightarrow> heap \<Rightarrow> nat \<Rightarrow> nat" where
  "UMM_NBLOCK B h b = rd16 (mem h) (b * B)"

definition UMM_PBLOCK :: "nat \<Rightarrow> heap \<Rightarrow> nat \<Rightarrow> nat" where
  "UMM_PBLOCK B h b = rd16 (mem h) (b * B + 2)"

definition UMM_NFREE :: "nat \<Rightarrow> heap \<Rightarrow> nat \<Rightarrow> nat" where
  "UMM_NFREE B h b = rd16 (mem h) (b * B + 4)"

definition UMM_PFREE :: "nat \<Rightarrow> heap \<Rightarrow> nat \<Rightarrow> nat" where
  "UMM_PFREE B h b = rd16 (mem h) (b * B + 6)"

text \<open>The assignments \<^verbatim>\<open>UMM_NBLOCK(b) = v\<close> and so on; \<open>wr16\<close> keeps the low 16 bits of \<open>v\<close>.\<close>

definition set_NBLOCK :: "nat \<Rightarrow> nat \<Rightarrow> nat \<Rightarrow> heap \<Rightarrow> heap" where
  "set_NBLOCK B b v h = h\<lparr>mem := wr16 (mem h) (b * B) v\<rparr>"

definition set_PBLOCK :: "nat \<Rightarrow> nat \<Rightarrow> nat \<Rightarrow> heap \<Rightarrow> heap" where
  "set_PBLOCK B b v h = h\<lparr>mem := wr16 (mem h) (b * B + 2) v\<rparr>"

definition set_NFREE :: "nat \<Rightarrow> nat \<Rightarrow> nat \<Rightarrow> heap \<Rightarrow> heap" where
  "set_NFREE B b v h = h\<lparr>mem := wr16 (mem h) (b * B + 4) v\<rparr>"

definition set_PFREE :: "nat \<Rightarrow> nat \<Rightarrow> nat \<Rightarrow> heap \<Rightarrow> heap" where
  "set_PFREE B b v h = h\<lparr>mem := wr16 (mem h) (b * B + 6) v\<rparr>"

text \<open>\<^verbatim>\<open>&UMM_DATA(b)\<close>: the body starts after the 4-byte used-header.\<close>

definition UMM_DATA :: "nat \<Rightarrow> nat \<Rightarrow> nat" where
  "UMM_DATA B b = b * B + 4"

text \<open>\<^verbatim>\<open>memset\<close>, and \<^verbatim>\<open>memmove\<close> (which \<^verbatim>\<open>memcpy\<close> equals on regions that do not overlap).\<close>

definition memset :: "memory \<Rightarrow> nat \<Rightarrow> byte \<Rightarrow> nat \<Rightarrow> memory" where
  "memset m dst v n = (\<lambda>a. if dst \<le> a \<and> a < dst + n then v else m a)"

definition memmove :: "memory \<Rightarrow> nat \<Rightarrow> nat \<Rightarrow> nat \<Rightarrow> memory" where
  "memmove m dst src n = (\<lambda>a. if dst \<le> a \<and> a < dst + n then m (src + (a - dst)) else m a)"

section \<open>Block arithmetic\<close>

text \<open>\<^verbatim>\<open>umm_blocks\<close>; \<open>size\<close> is a \<^verbatim>\<open>size_t\<close>, \<^verbatim>\<open>sizeof body\<close> is \<open>B - 4\<close>, \<^verbatim>\<open>INT16_MAX\<close> is 32767.\<close>

definition umm_blocks :: "nat \<Rightarrow> nat \<Rightarrow> nat" where
  "umm_blocks B sz =
     (if sz \<le> B - 4 then 1
      else let sz' = sz - (B - 4);
               blocks = 2 + (sz' - 1) div B
           in u16 (if blocks > 32767 then 32767 else blocks))"

text \<open>
  The spec's wording of the same function (section 4.1): past the first body, subtract
  \<open>B - 4\<close>, divide by \<open>B\<close> rounding up, add 2, and clamp to \<^verbatim>\<open>INT16_MAX\<close>.
\<close>

definition blocks_for_spec :: "nat \<Rightarrow> nat \<Rightarrow> nat" where
  "blocks_for_spec B sz =
     (if sz \<le> B - 4 then 1
      else min 32767 ((sz - (B - 4) + B - 1) div B + 2))"

section \<open>Free-list primitives\<close>

definition umm_split_block :: "nat \<Rightarrow> nat \<Rightarrow> nat \<Rightarrow> nat \<Rightarrow> heap \<Rightarrow> heap" where
  "umm_split_block B c blocks new_freemask h =
     (let h1 = set_NBLOCK B (c + blocks) ((UMM_NBLOCK B h c AND UMM_BLOCKNO_MASK) OR new_freemask) h;
          h2 = set_PBLOCK B (c + blocks) c h1;
          h3 = set_PBLOCK B (UMM_NBLOCK B h2 c AND UMM_BLOCKNO_MASK) (c + blocks) h2
      in set_NBLOCK B c (c + blocks) h3)"

text \<open>
  In \<^verbatim>\<open>UMM_NBLOCK(c) &= (~UMM_FREELIST_MASK)\<close> the complement is taken in \<^verbatim>\<open>int\<close>; on a
  16-bit operand it keeps the bits of \<open>65535 - UMM_FREELIST_MASK\<close>.
\<close>

definition umm_disconnect_from_free_list :: "nat \<Rightarrow> nat \<Rightarrow> heap \<Rightarrow> heap" where
  "umm_disconnect_from_free_list B c h =
     (let h1 = set_NFREE B (UMM_PFREE B h c) (UMM_NFREE B h c) h;
          h2 = set_PFREE B (UMM_NFREE B h1 c) (UMM_PFREE B h1 c) h1
      in set_NBLOCK B c (UMM_NBLOCK B h2 c AND (65535 - UMM_FREELIST_MASK)) h2)"

definition umm_assimilate_up :: "nat \<Rightarrow> nat \<Rightarrow> heap \<Rightarrow> heap" where
  "umm_assimilate_up B c h =
     (if UMM_NBLOCK B h (UMM_NBLOCK B h c) AND UMM_FREELIST_MASK \<noteq> 0 then
        let h1 = umm_disconnect_from_free_list B (UMM_NBLOCK B h c) h;
            h2 = set_PBLOCK B (UMM_NBLOCK B h1 (UMM_NBLOCK B h1 c) AND UMM_BLOCKNO_MASK) c h1
        in set_NBLOCK B c (UMM_NBLOCK B h2 (UMM_NBLOCK B h2 c) AND UMM_BLOCKNO_MASK) h2
      else h)"

definition umm_assimilate_down :: "nat \<Rightarrow> nat \<Rightarrow> nat \<Rightarrow> heap \<Rightarrow> heap \<times> nat" where
  "umm_assimilate_down B c freemask h =
     (let h1 = set_NBLOCK B (UMM_PBLOCK B h c) (UMM_NBLOCK B h c OR freemask) h;
          h2 = set_PBLOCK B (UMM_NBLOCK B h1 c) (UMM_PBLOCK B h1 c) h1
      in (h2, UMM_PBLOCK B h2 c))"

section \<open>Initialisation\<close>

text \<open>
  \<^verbatim>\<open>umm_init_heap\<close> over a region of \<open>size\<close> bytes whose bytes were \<open>m\<close>. With fewer than
  \<open>B\<close> bytes \<^verbatim>\<open>UMM_BLOCK_LAST\<close> is \<open>-1\<close> and the last store goes in front of the region:
  that undefined behaviour is the result \<open>None\<close>.
\<close>

definition umm_init_heap :: "nat \<Rightarrow> memory \<Rightarrow> nat \<Rightarrow> heap option" where
  "umm_init_heap B m sz =
     (let n = u16 (sz div B);
          h0 = \<lparr>mem = memset m 0 0 sz, heap_size = sz, numblocks = n\<rparr>
      in if n = 0 then None
         else let h1 = set_NBLOCK B 0 1 h0;
                  h2 = set_NFREE B 0 1 h1;
                  h3 = set_PFREE B 0 1 h2;
                  h4 = set_NBLOCK B 1 ((n - 1) OR UMM_FREELIST_MASK) h3
              in Some (set_PBLOCK B (n - 1) 1 h4))"

section \<open>Free\<close>

definition umm_free_core :: "nat \<Rightarrow> nat \<Rightarrow> heap \<Rightarrow> heap" where
  "umm_free_core B p h =
     (let c = u16 (p div B);
          h1 = umm_assimilate_up B c h
      in if UMM_NBLOCK B h1 (UMM_PBLOCK B h1 c) AND UMM_FREELIST_MASK \<noteq> 0 then
           fst (umm_assimilate_down B c UMM_FREELIST_MASK h1)
         else
           let h2 = set_PFREE B (UMM_NFREE B h1 0) c h1;
               h3 = set_NFREE B c (UMM_NFREE B h2 0) h2;
               h4 = set_PFREE B c 0 h3;
               h5 = set_NFREE B 0 c h4
           in set_NBLOCK B c (UMM_NBLOCK B h5 c OR UMM_FREELIST_MASK) h5)"

definition umm_free :: "nat \<Rightarrow> ptr \<Rightarrow> heap \<Rightarrow> heap" where
  "umm_free B p h = (case p of None \<Rightarrow> h | Some a \<Rightarrow> umm_free_core B a h)"

section \<open>Allocate\<close>

text \<open>
  The selection policy is a compile-time choice of \<^verbatim>\<open>umm_malloc_cfg.h\<close>; both variants of
  the loop body are modelled, chosen by a parameter.
\<close>

datatype fit = UMM_BEST_FIT | UMM_FIRST_FIT

text \<open>
  The \<^verbatim>\<open>while (cf)\<close> loop of \<^verbatim>\<open>umm_malloc_core\<close> over the variables \<open>cf\<close>, \<open>blockSize\<close>,
  \<open>bestBlock\<close> and \<open>bestSize\<close>. On a corrupted free list it need not end: \<open>None\<close>.
\<close>

partial_function (option) scan_free ::
  "nat \<Rightarrow> fit \<Rightarrow> heap \<Rightarrow> nat \<Rightarrow> nat \<Rightarrow> nat \<Rightarrow> nat \<Rightarrow> nat \<Rightarrow> (nat \<times> nat \<times> nat \<times> nat) option" where
  "scan_free B policy h blocks cf blockSize bestBlock bestSize =
     (if cf \<noteq> 0 then
        (let blockSize' = sub16 (UMM_NBLOCK B h cf AND UMM_BLOCKNO_MASK) cf
         in case policy of
              UMM_BEST_FIT \<Rightarrow>
                if blockSize' \<ge> blocks \<and> blockSize' < bestSize
                then scan_free B policy h blocks (UMM_NFREE B h cf) blockSize' cf blockSize'
                else scan_free B policy h blocks (UMM_NFREE B h cf) blockSize' bestBlock bestSize
            | UMM_FIRST_FIT \<Rightarrow>
                if blockSize' \<ge> blocks
                then Some (cf, blockSize', bestBlock, bestSize)
                else scan_free B policy h blocks (UMM_NFREE B h cf) blockSize' bestBlock bestSize)
      else Some (cf, blockSize, bestBlock, bestSize))"

declare scan_free.simps [code]

definition umm_malloc_core :: "nat \<Rightarrow> fit \<Rightarrow> nat \<Rightarrow> heap \<Rightarrow> (heap \<times> ptr) option" where
  "umm_malloc_core B policy sz h =
     (let blocks = umm_blocks B sz
      in case scan_free B policy h blocks (UMM_NFREE B h 0) 0 (UMM_NFREE B h 0) 32767 of
           None \<Rightarrow> None
         | Some (cf0, blockSize0, bestBlock, bestSize) \<Rightarrow>
             let cf = (if 32767 \<noteq> bestSize then bestBlock else cf0);
                 blockSize = (if 32767 \<noteq> bestSize then bestSize else blockSize0)
             in if UMM_NBLOCK B h cf AND UMM_BLOCKNO_MASK \<noteq> 0 \<and> blockSize \<ge> blocks then
                  if blockSize = blocks then
                    Some (umm_disconnect_from_free_list B cf h, Some (UMM_DATA B cf))
                  else
                    let h1 = umm_split_block B cf blocks UMM_FREELIST_MASK h;
                        h2 = set_NFREE B (UMM_PFREE B h1 cf) (cf + blocks) h1;
                        h3 = set_PFREE B (cf + blocks) (UMM_PFREE B h2 cf) h2;
                        h4 = set_PFREE B (UMM_NFREE B h3 cf) (cf + blocks) h3;
                        h5 = set_NFREE B (cf + blocks) (UMM_NFREE B h4 cf) h4
                    in Some (h5, Some (UMM_DATA B cf))
                else Some (h, None))"

definition umm_malloc :: "nat \<Rightarrow> fit \<Rightarrow> nat \<Rightarrow> heap \<Rightarrow> (heap \<times> ptr) option" where
  "umm_malloc B policy sz h =
     (if 0 = sz then Some (h, None) else umm_malloc_core B policy sz h)"

section \<open>Reallocate\<close>

text \<open>The tail of \<^verbatim>\<open>umm_realloc\<close>: split off and free what exceeds the request.\<close>

definition realloc_finish :: "nat \<Rightarrow> nat \<Rightarrow> nat \<Rightarrow> nat \<Rightarrow> ptr \<Rightarrow> heap \<Rightarrow> heap \<times> ptr" where
  "realloc_finish B blocks blockSize c p h =
     (if blockSize > blocks then
        (umm_free_core B (UMM_DATA B (c + blocks)) (umm_split_block B c blocks 0 h), p)
      else (h, p))"

text \<open>
  \<^verbatim>\<open>umm_realloc\<close>. \<open>curSize\<close> is a \<^verbatim>\<open>size_t\<close> of 32 bits; the sums that select the case are
  computed in \<^verbatim>\<open>int\<close>, the updates of \<open>blockSize\<close> are stored in a \<^verbatim>\<open>uint16_t\<close>.
\<close>

definition umm_realloc :: "nat \<Rightarrow> fit \<Rightarrow> ptr \<Rightarrow> nat \<Rightarrow> heap \<Rightarrow> (heap \<times> ptr) option" where
  "umm_realloc B policy p sz h =
     (case p of
        None \<Rightarrow> umm_malloc B policy sz h
      | Some a \<Rightarrow>
          if 0 = sz then Some (umm_free B (Some a) h, None)
          else
            let blocks = umm_blocks B sz;
                c = u16 (a div B);
                blockSize = sub16 (UMM_NBLOCK B h c) c;
                curSize = (blockSize * B + 4294967296 - 4) mod 4294967296;
                nextBlockSize =
                  (if UMM_NBLOCK B h (UMM_NBLOCK B h c) AND UMM_FREELIST_MASK \<noteq> 0
                   then sub16 (UMM_NBLOCK B h (UMM_NBLOCK B h c) AND UMM_BLOCKNO_MASK) (UMM_NBLOCK B h c)
                   else 0);
                prevBlockSize =
                  (if UMM_NBLOCK B h (UMM_PBLOCK B h c) AND UMM_FREELIST_MASK \<noteq> 0
                   then sub16 c (UMM_PBLOCK B h c)
                   else 0)
            in if blockSize \<ge> blocks then
                 Some (realloc_finish B blocks blockSize c (Some a) h)
               else if blockSize + nextBlockSize = blocks then
                 Some (realloc_finish B blocks (u16 (blockSize + nextBlockSize)) c (Some a)
                         (umm_assimilate_up B c h))
               else if 0 = prevBlockSize \<and> blockSize + nextBlockSize \<ge> blocks then
                 Some (realloc_finish B blocks (u16 (blockSize + nextBlockSize)) c (Some a)
                         (umm_assimilate_up B c h))
               else if prevBlockSize + blockSize \<ge> blocks then
                 let h1 = umm_disconnect_from_free_list B (UMM_PBLOCK B h c) h;
                     (h2, c') = umm_assimilate_down B c 0 h1;
                     h3 = h2\<lparr>mem := memmove (mem h2) (UMM_DATA B c') a curSize\<rparr>
                 in Some (realloc_finish B blocks (u16 (blockSize + prevBlockSize)) c'
                            (Some (UMM_DATA B c')) h3)
               else if prevBlockSize + blockSize + nextBlockSize \<ge> blocks then
                 let h0 = umm_assimilate_up B c h;
                     h1 = umm_disconnect_from_free_list B (UMM_PBLOCK B h0 c) h0;
                     (h2, c') = umm_assimilate_down B c 0 h1;
                     h3 = h2\<lparr>mem := memmove (mem h2) (UMM_DATA B c') a curSize\<rparr>
                 in Some (realloc_finish B blocks (u16 (blockSize + u16 (prevBlockSize + nextBlockSize))) c'
                            (Some (UMM_DATA B c')) h3)
               else
                 (case umm_malloc_core B policy sz h of
                    None \<Rightarrow> None
                  | Some (h1, None) \<Rightarrow> Some (realloc_finish B blocks blocks c None h1)
                  | Some (h1, Some q) \<Rightarrow>
                      let h2 = h1\<lparr>mem := memmove (mem h1) q a curSize\<rparr>
                      in Some (realloc_finish B blocks blocks c (Some q) (umm_free_core B a h2))))"

section \<open>Zero-allocate\<close>

text \<open>\<^verbatim>\<open>umm_calloc\<close>; the product \<^verbatim>\<open>item_size * num\<close> is a \<^verbatim>\<open>size_t\<close> of 32 bits.\<close>

definition umm_calloc :: "nat \<Rightarrow> fit \<Rightarrow> nat \<Rightarrow> nat \<Rightarrow> heap \<Rightarrow> (heap \<times> ptr) option" where
  "umm_calloc B policy num item_size h =
     (case umm_malloc B policy ((item_size * num) mod 4294967296) h of
        None \<Rightarrow> None
      | Some (h1, None) \<Rightarrow> Some (h1, None)
      | Some (h1, Some q) \<Rightarrow>
          Some (h1\<lparr>mem := memset (mem h1) q 0 ((item_size * num) mod 4294967296)\<rparr>, Some q))"

section \<open>Introspection\<close>

text \<open>
  \<^verbatim>\<open>UMM_HEAP_INFO\<close> is declared in \<^verbatim>\<open>umm_malloc.h\<close>, which is not part of the sources; the
  record has the fields \<^verbatim>\<open>umm_info\<close> uses, the counters as \<^verbatim>\<open>unsigned int\<close> of 32 bits
  (every update is reduced modulo \<open>2^32\<close>) and the two metrics as \<^verbatim>\<open>int\<close>. \<open>curBlocks\<close> is
  the \<^verbatim>\<open>size_t\<close> of 32 bits the code declares.
\<close>

record UMM_HEAP_INFO =
  totalEntries :: nat
  usedEntries :: nat
  freeEntries :: nat
  totalBlocks :: nat
  usedBlocks :: nat
  freeBlocks :: nat
  freeBlocksSquared :: nat
  maxFreeContiguousBlocks :: nat
  usage_metric :: int
  fragmentation_metric :: int

definition info_zero :: UMM_HEAP_INFO where
  "info_zero = \<lparr>totalEntries = 0, usedEntries = 0, freeEntries = 0, totalBlocks = 0,
     usedBlocks = 0, freeBlocks = 0, freeBlocksSquared = 0, maxFreeContiguousBlocks = 0,
     usage_metric = 0, fragmentation_metric = 0\<rparr>"

text \<open>Arithmetic in \<^verbatim>\<open>unsigned int\<close>, and the conversion of its values to \<^verbatim>\<open>int\<close>.\<close>

definition u32 :: "nat \<Rightarrow> nat" where
  "u32 x = x mod 4294967296"

definition int_of_u32 :: "nat \<Rightarrow> int" where
  "int_of_u32 x = (if x < 2147483648 then int x else int x - 4294967296)"

definition compute_usage_metric :: "UMM_HEAP_INFO \<Rightarrow> UMM_HEAP_INFO" where
  "compute_usage_metric i =
     (if 0 = freeBlocks i then i\<lparr>usage_metric := - 1\<rparr>
      else i\<lparr>usage_metric := int_of_u32 (u32 (usedBlocks i * 100) div freeBlocks i)\<rparr>)"

text \<open>
  \<^verbatim>\<open>(uint32_t)(sqrtf(x))\<close> for an \<^verbatim>\<open>unsigned int\<close> \<open>x\<close>, in IEEE 754 single precision
  (a significand of 24 bits, rounding to nearest). The conversion of \<open>x\<close> to \<^verbatim>\<open>float\<close> is
  \<open>float_of_u32\<close>: up to \<open>2^24\<close> it is exact, above it keeps the 24 leading bits and rounds
  what it drops to nearest, a tie to the even significand. \<^verbatim>\<open>sqrtf\<close> returns the \<^verbatim>\<open>float\<close>
  nearest to the root. With the root \<open>y\<close> in \<open>[2^e, 2^(e + 1))\<close> the floats there are the
  multiples of \<open>2^(e - 23)\<close>, so the result is \<open>q * 2^(e - 23)\<close> for the integer \<open>q\<close> nearest
  to \<open>y * 2^(23 - e)\<close> (no tie occurs: that number is an integer or irrational), which is
  \<open>(floor (sqrt (4 * f * 4^(23 - e))) + 1) div 2\<close>; the conversion to \<^verbatim>\<open>uint32_t\<close> drops the
  fraction. \<open>sqrt_floor\<close> is the integer square root, \<open>floorlog2\<close> the index of the leading
  bit.
\<close>

fun sqrt_floor :: "nat \<Rightarrow> nat" where
  "sqrt_floor n =
     (if n < 4 then (if n = 0 then 0 else 1)
      else let r = 2 * sqrt_floor (n div 4)
           in if (r + 1) * (r + 1) \<le> n then r + 1 else r)"

declare sqrt_floor.simps [simp del]

fun floorlog2 :: "nat \<Rightarrow> nat" where
  "floorlog2 n = (if n < 2 then 0 else Suc (floorlog2 (n div 2)))"

declare floorlog2.simps [simp del]

definition float_of_u32 :: "nat \<Rightarrow> nat" where
  "float_of_u32 x =
     (if x < 16777216 then x
      else let sh = floorlog2 x - 23;
               q = x div 2 ^ sh;
               r = x mod 2 ^ sh;
               half = 2 ^ (sh - 1)
           in (if r > half \<or> (r = half \<and> odd q) then q + 1 else q) * 2 ^ sh)"

definition sqrtf_u32 :: "nat \<Rightarrow> nat" where
  "sqrtf_u32 f =
     (if f = 0 then 0
      else let s = 23 - floorlog2 (sqrt_floor f);
               q = (sqrt_floor (f * 4 ^ (s + 1)) + 1) div 2
           in q div 2 ^ s)"

text \<open>
  In \<^verbatim>\<open>100 - (((uint32_t)(sqrtf(...)) * 100) / (freeBlocks))\<close> every operation is one of
  \<^verbatim>\<open>unsigned int\<close>; the result is stored in an \<^verbatim>\<open>int\<close>.
\<close>

definition compute_fragmentation_metric :: "UMM_HEAP_INFO \<Rightarrow> UMM_HEAP_INFO" where
  "compute_fragmentation_metric i =
     (if 0 = freeBlocks i then i\<lparr>fragmentation_metric := 0\<rparr>
      else i\<lparr>fragmentation_metric :=
             int_of_u32 (u32 (100 + 4294967296
               - u32 (sqrtf_u32 (float_of_u32 (freeBlocksSquared i)) * 100) div freeBlocks i))\<rparr>)"

text \<open>
  The \<^verbatim>\<open>while\<close> loop of \<^verbatim>\<open>umm_info\<close>. The flag of the result says whether the loop was
  left by the \<^verbatim>\<open>return ptr\<close> in its body. On a corrupted chain it need not end: \<open>None\<close>.
\<close>

partial_function (option) info_loop ::
  "nat \<Rightarrow> heap \<Rightarrow> ptr \<Rightarrow> nat \<Rightarrow> UMM_HEAP_INFO \<Rightarrow> (UMM_HEAP_INFO \<times> bool) option" where
  "info_loop B h p blockNo i =
     (if UMM_NBLOCK B h blockNo AND UMM_BLOCKNO_MASK \<noteq> 0 then
        (let curBlocks = ((UMM_NBLOCK B h blockNo AND UMM_BLOCKNO_MASK) + 4294967296 - blockNo)
                           mod 4294967296;
             i1 = i\<lparr>totalEntries := u32 (totalEntries i + 1),
                    totalBlocks := u32 (totalBlocks i + curBlocks)\<rparr>
         in if UMM_NBLOCK B h blockNo AND UMM_FREELIST_MASK \<noteq> 0 then
              (let i2 = i1\<lparr>freeEntries := u32 (freeEntries i1 + 1),
                           freeBlocks := u32 (freeBlocks i1 + curBlocks),
                           freeBlocksSquared := u32 (freeBlocksSquared i1 + u32 (curBlocks * curBlocks))\<rparr>;
                   i3 = (if maxFreeContiguousBlocks i2 < curBlocks
                         then i2\<lparr>maxFreeContiguousBlocks := curBlocks\<rparr> else i2)
               in if p = Some (blockNo * B) then Some (i3, True)
                  else info_loop B h p (UMM_NBLOCK B h blockNo AND UMM_BLOCKNO_MASK) i3)
            else
              info_loop B h p (UMM_NBLOCK B h blockNo AND UMM_BLOCKNO_MASK)
                (i1\<lparr>usedEntries := u32 (usedEntries i1 + 1),
                    usedBlocks := u32 (usedBlocks i1 + curBlocks)\<rparr>))
      else Some (i, False))"

declare info_loop.simps [code]

text \<open>
  \<^verbatim>\<open>umm_info\<close>: the new value of \<^verbatim>\<open>ummHeapInfo\<close> and the pointer returned. The address of
  the header of block \<open>b\<close> is \<open>b * B\<close> bytes from the start of the heap.
\<close>

definition umm_info :: "nat \<Rightarrow> ptr \<Rightarrow> heap \<Rightarrow> (UMM_HEAP_INFO \<times> ptr) option" where
  "umm_info B p h =
     (case info_loop B h p (UMM_NBLOCK B h 0 AND UMM_BLOCKNO_MASK) info_zero of
        None \<Rightarrow> None
      | Some (i, True) \<Rightarrow> Some (i, p)
      | Some (i, False) \<Rightarrow> Some (compute_fragmentation_metric (compute_usage_metric i), None))"

text \<open>The queries, as compiled without \<^verbatim>\<open>UMM_INLINE_METRICS\<close>: each one runs \<^verbatim>\<open>umm_info(NULL, false)\<close>.\<close>

definition umm_free_heap_size :: "nat \<Rightarrow> heap \<Rightarrow> nat option" where
  "umm_free_heap_size B h =
     map_option (\<lambda>(i, _). (freeBlocks i * B) mod 4294967296) (umm_info B None h)"

definition umm_usage_metric :: "nat \<Rightarrow> heap \<Rightarrow> int option" where
  "umm_usage_metric B h = map_option (\<lambda>(i, _). usage_metric i) (umm_info B None h)"

definition umm_fragmentation_metric :: "nat \<Rightarrow> heap \<Rightarrow> int option" where
  "umm_fragmentation_metric B h = map_option (\<lambda>(i, _). fragmentation_metric i) (umm_info B None h)"

section \<open>The heap invariants\<close>

text \<open>Index of the next block in the chain, and the free flag of a block.\<close>

definition nb :: "nat \<Rightarrow> heap \<Rightarrow> nat \<Rightarrow> nat" where
  "nb B h i = UMM_NBLOCK B h i AND UMM_BLOCKNO_MASK"

definition is_free :: "nat \<Rightarrow> heap \<Rightarrow> nat \<Rightarrow> bool" where
  "is_free B h i \<longleftrightarrow> UMM_NBLOCK B h i AND UMM_FREELIST_MASK \<noteq> 0"

text \<open>The block chain: the blocks met from block 0 by following \<open>next_block\<close> until it is 0.\<close>

inductive_set chain :: "nat \<Rightarrow> heap \<Rightarrow> nat set" for B :: nat and h :: heap where
  chain_head: "0 \<in> chain B h"
| chain_next: "i \<in> chain B h \<Longrightarrow> nb B h i \<noteq> 0 \<Longrightarrow> nb B h i \<in> chain B h"

text \<open>The free runs: start and length of every free block of the chain.\<close>

definition free_runs :: "nat \<Rightarrow> heap \<Rightarrow> (nat \<times> nat) set" where
  "free_runs B h = {(i, nb B h i - i) |i. i \<in> chain B h \<and> is_free B h i}"

text \<open>
  The free ring as a list, over the two link fields \<open>nf\<close> (\<open>next_free\<close>) and \<open>pf\<close>
  (\<open>prev_free\<close>): \<open>dll nf pf p xs\<close> says that following \<open>nf\<close> from \<open>p\<close> visits \<open>xs\<close> and
  then block 0, with \<open>pf\<close> leading back at every step.
\<close>

fun dll :: "(nat \<Rightarrow> nat) \<Rightarrow> (nat \<Rightarrow> nat) \<Rightarrow> nat \<Rightarrow> nat list \<Rightarrow> bool" where
  "dll nf pf p [] \<longleftrightarrow> nf p = 0 \<and> pf 0 = p"
| "dll nf pf p (x # xs) \<longleftrightarrow> nf p = x \<and> pf x = p \<and> dll nf pf x xs"

text \<open>
  The invariants of section 3.4 of the spec, for the set \<open>S\<close> of the block indices of the
  chain and the list \<open>fl\<close> of the free ring. \<open>chain_ok\<close>: the sentinels 0 and \<open>N - 1\<close>,
  chain order and chain backlink, and no block starting inside another. \<open>flags_ok\<close>: the
  sentinels are used, the ring holds exactly the blocks with the free flag, and a free
  block is followed by a used one.
\<close>

definition chain_ok :: "nat \<Rightarrow> (nat \<Rightarrow> nat) \<Rightarrow> (nat \<Rightarrow> nat) \<Rightarrow> nat set \<Rightarrow> bool" where
  "chain_ok N nx pb S \<longleftrightarrow>
     2 \<le> N \<and> N \<le> 32767 \<and> 0 \<in> S \<and> N - 1 \<in> S \<and> (\<forall>i\<in>S. i < N) \<and> nx (N - 1) = 0 \<and>
     (\<forall>i\<in>S. i \<noteq> N - 1 \<longrightarrow>
        nx i \<in> S \<and> i < nx i \<and> (\<forall>j\<in>S. j \<le> i \<or> nx i \<le> j) \<and> pb (nx i) = i)"

definition flags_ok :: "nat \<Rightarrow> (nat \<Rightarrow> nat) \<Rightarrow> (nat \<Rightarrow> bool) \<Rightarrow> nat set \<Rightarrow> nat list \<Rightarrow> bool" where
  "flags_ok N nx fr S fl \<longleftrightarrow>
     \<not> fr 0 \<and> \<not> fr (N - 1) \<and> set fl = {i \<in> S. fr i} \<and> (\<forall>i\<in>S. fr i \<longrightarrow> \<not> fr (nx i))"

definition heap_inv ::
  "nat \<Rightarrow> (nat \<Rightarrow> nat) \<Rightarrow> (nat \<Rightarrow> bool) \<Rightarrow> (nat \<Rightarrow> nat) \<Rightarrow> (nat \<Rightarrow> nat) \<Rightarrow> (nat \<Rightarrow> nat)
     \<Rightarrow> nat set \<Rightarrow> nat list \<Rightarrow> bool" where
  "heap_inv N nx fr pb nf pf S fl \<longleftrightarrow>
     chain_ok N nx pb S \<and> flags_ok N nx fr S fl \<and> dll nf pf 0 fl \<and> distinct fl"

definition valid :: "nat \<Rightarrow> heap \<Rightarrow> nat set \<Rightarrow> nat list \<Rightarrow> bool" where
  "valid B h S fl \<longleftrightarrow>
     heap_inv (numblocks h) (nb B h) (is_free B h) (UMM_PBLOCK B h) (UMM_NFREE B h) (UMM_PFREE B h) S fl"

definition heap_ok :: "nat \<Rightarrow> heap \<Rightarrow> bool" where
  "heap_ok B h \<longleftrightarrow> (\<exists>S fl. valid B h S fl)"

text \<open>
  A live allocation: the body address of a used block of the chain other than the two
  sentinels. \<open>block_bytes\<close> is the number of bytes of its body.
\<close>

definition allocated :: "nat \<Rightarrow> heap \<Rightarrow> nat \<Rightarrow> bool" where
  "allocated B h a \<longleftrightarrow>
     (\<exists>c\<in>chain B h. a = UMM_DATA B c \<and> c \<noteq> 0 \<and> c \<noteq> numblocks h - 1 \<and> \<not> is_free B h c)"

definition block_bytes :: "nat \<Rightarrow> heap \<Rightarrow> nat \<Rightarrow> nat" where
  "block_bytes B h a = (nb B h (a div B) - a div B) * B - 4"

text \<open>
  The states an initialised heap reaches: by allocate, by free and reallocate of live
  allocations (reallocate also of \<^verbatim>\<open>NULL\<close>), and by the caller storing a byte into the
  body of a live allocation.
\<close>

inductive reachable :: "nat \<Rightarrow> fit \<Rightarrow> heap \<Rightarrow> bool" for B :: nat and policy :: fit where
  r_init: "umm_init_heap B m sz = Some h \<Longrightarrow> 3 \<le> numblocks h \<Longrightarrow> numblocks h \<le> 32767
             \<Longrightarrow> reachable B policy h"
| r_malloc: "reachable B policy h \<Longrightarrow> umm_malloc B policy sz h = Some (h', p)
             \<Longrightarrow> reachable B policy h'"
| r_free: "reachable B policy h \<Longrightarrow> allocated B h a
             \<Longrightarrow> reachable B policy (umm_free B (Some a) h)"
| r_free_null: "reachable B policy h \<Longrightarrow> reachable B policy (umm_free B None h)"
| r_realloc: "reachable B policy h \<Longrightarrow> allocated B h a
             \<Longrightarrow> umm_realloc B policy (Some a) sz h = Some (h', p)
             \<Longrightarrow> reachable B policy h'"
| r_realloc_null: "reachable B policy h \<Longrightarrow> umm_realloc B policy None sz h = Some (h', p)
             \<Longrightarrow> reachable B policy h'"
| r_store: "reachable B policy h \<Longrightarrow> allocated B h a \<Longrightarrow> k < block_bytes B h a
             \<Longrightarrow> reachable B policy (h\<lparr>mem := (mem h)(a + k := v)\<rparr>)"

section \<open>The bytes an operation writes\<close>

text \<open>
  The addresses at which two heaps differ; the four header bytes of block \<open>b\<close>
  (\<open>next_block\<close> and \<open>prev_block\<close>), and the four bytes after them, which hold the links of
  the free list in a free block and the first body bytes in a used one.
\<close>

definition touched :: "heap \<Rightarrow> heap \<Rightarrow> nat set" where
  "touched h h' = {x. mem h' x \<noteq> mem h x}"

definition hdr :: "nat \<Rightarrow> nat \<Rightarrow> nat set" where
  "hdr B b = {b * B ..< b * B + 4}"

definition lnk :: "nat \<Rightarrow> nat \<Rightarrow> nat set" where
  "lnk B b = {b * B + 4 ..< b * B + 8}"

section \<open>Example heaps\<close>

text \<open>
  A region of 128 zero bytes initialised with blocks of 8 bytes (16 blocks), and the heap
  after one allocation of 20 bytes in it.
\<close>

definition zero_mem :: memory where
  "zero_mem = (\<lambda>_. 0)"

definition heap16 :: heap where
  "heap16 = the (umm_init_heap 8 zero_mem 128)"

definition heap16_a :: heap where
  "heap16_a = fst (the (umm_malloc 8 UMM_BEST_FIT 20 heap16))"

text \<open>A region of 16 zero bytes initialised with blocks of 8 bytes: two blocks.\<close>

definition heap2 :: heap where
  "heap2 = the (umm_init_heap 8 zero_mem 16)"

lemma rd16_lt: "rd16 m a < 65536"
proof -
  have "unat (m a) < 256" "unat (m (a + 1)) < 256"
    using unsigned_less [of "m a"] unsigned_less [of "m (a+1)"] by simp_all
  then show ?thesis by (simp add: rd16_def)
qed

lemma rd16_wr16_same: "rd16 (wr16 m a v) a = v mod 65536"
proof -
  have a: "unat (of_nat (v mod 256) :: byte) = v mod 256"
    by (simp add: unat_of_nat take_bit_eq_mod)
  have b: "unat (of_nat (v div 256 mod 256) :: byte) = v div 256 mod 256"
    by (simp add: unat_of_nat take_bit_eq_mod)
  have "v mod (256 * 256) = 256 * (v div 256 mod 256) + v mod 256"
    by (rule mod_mult2_eq)
  then have "v mod 65536 = v mod 256 + 256 * (v div 256 mod 256)"
    by simp
  then show ?thesis by (simp add: rd16_def wr16_def a b)
qed

lemma rd16_wr16_other:
  "a' \<noteq> a \<Longrightarrow> a' \<noteq> a + 1 \<Longrightarrow> a' + 1 \<noteq> a \<Longrightarrow> rd16 (wr16 m a v) a' = rd16 m a'"
  by (simp add: rd16_def wr16_def)

lemma block_step: "b < b' \<Longrightarrow> b * B + B \<le> b' * (B::nat)"
proof -
  assume "b < b'"
  then have "Suc b * B \<le> b' * B" by (intro mult_le_mono1) simp
  then show ?thesis by simp
qed

lemma field_addr:
  assumes "8 \<le> (B::nat)" "o1 < 7" "o2 < 7"
    and "b * B + o1 = b' * B + o2 \<or> b * B + o1 = b' * B + o2 + 1 \<or> b * B + o1 + 1 = b' * B + o2"
  shows "b = b'"
proof (cases b b' rule: linorder_cases)
  case less
  from block_step [OF less, of B] have "b * B + B \<le> b' * B" .
  with assms show ?thesis by linarith
next
  case greater
  from block_step [OF greater, of B] have "b' * B + B \<le> b * B" .
  with assms show ?thesis by linarith
qed simp

lemma mask_blockno: "x AND UMM_BLOCKNO_MASK = x mod 32768"
proof -
  have "x AND mask 15 = take_bit 15 x" by (simp add: take_bit_eq_mask)
  then show ?thesis by (simp add: UMM_BLOCKNO_MASK_def mask_eq_exp_minus_1 take_bit_eq_mod)
qed

lemma mask_not_free: "x AND (65535 - UMM_FREELIST_MASK) = x mod 32768"
proof -
  have "x AND mask 15 = take_bit 15 x" by (simp add: take_bit_eq_mask)
  then show ?thesis by (simp add: UMM_FREELIST_MASK_def mask_eq_exp_minus_1 take_bit_eq_mod)
qed

lemma mask_free: "x < 65536 \<Longrightarrow> (x AND UMM_FREELIST_MASK \<noteq> 0) = (32768 \<le> x)"
proof -
  assume x: "x < 65536"
  have "(x AND 2 ^ 15 = 0) = (\<not> bit x 15)" by (rule and_exp_eq_0_iff_not_bit)
  moreover have "bit x 15 = (32768 \<le> x)"
  proof (cases "x < 32768")
    case True
    then show ?thesis by (simp add: bit_iff_odd)
  next
    case False
    with x have "x div 32768 = 1" by (intro div_nat_eqI) simp_all
    with False show ?thesis by (simp add: bit_iff_odd)
  qed
  ultimately show ?thesis by (simp add: UMM_FREELIST_MASK_def)
qed

lemma or_free: "y < 32768 \<Longrightarrow> y OR UMM_FREELIST_MASK = y + 32768"
proof -
  assume y: "y < 32768"
  have "\<not> bit y 15" using y by (simp add: bit_iff_odd)
  then have "set_bit 15 y = y + 2 ^ 15" by (simp add: set_bit_eq)
  then show ?thesis by (simp add: UMM_FREELIST_MASK_def set_bit_eq_or)
qed

lemma or_zero: "(y::nat) OR 0 = y" by simp

lemma u16_rd16 [simp]: "u16 (rd16 m a) = rd16 m a"
  using rd16_lt [of m a] by (simp add: u16_def)

lemma rd_wr_field:
  assumes B: "8 \<le> (B::nat)" and o1: "o1 \<in> {0, 2, 4, 6}" and o2: "o2 \<in> {0, 2, 4, 6}"
  shows "rd16 (wr16 m (b * B + o2) v) (b' * B + o1) =
           (if b' = b \<and> o1 = o2 then u16 v else rd16 m (b' * B + o1))"
proof (cases "b' = b")
  case True
  show ?thesis
  proof (cases "o1 = o2")
    case True
    with \<open>b' = b\<close> show ?thesis by (simp add: rd16_wr16_same u16_def)
  next
    case False
    with o1 o2 have "o1 \<noteq> o2 + 1" "o1 + 1 \<noteq> o2" by auto
    with False \<open>b' = b\<close> show ?thesis by (simp add: rd16_wr16_other)
  qed
next
  case False
  from o1 o2 have lt: "o1 < 7" "o2 < 7" by auto
  have "b' * B + o1 \<noteq> b * B + o2" "b' * B + o1 \<noteq> b * B + o2 + 1" "b' * B + o1 + 1 \<noteq> b * B + o2"
    using field_addr [OF B lt, of b' b] False by blast+
  with False show ?thesis by (simp add: rd16_wr16_other)
qed

lemmas rd_wr0 = rd_wr_field [where ?o2.0 = 0, simplified]

lemma NBLOCK_set_NBLOCK: "8 \<le> B \<Longrightarrow> UMM_NBLOCK B (set_NBLOCK B b v h) = (UMM_NBLOCK B h)(b := u16 v)"
  using rd_wr_field [of B 0 0 "mem h" b v] by (auto simp: UMM_NBLOCK_def set_NBLOCK_def fun_eq_iff)
lemma PBLOCK_set_NBLOCK: "8 \<le> B \<Longrightarrow> UMM_PBLOCK B (set_NBLOCK B b v h) = UMM_PBLOCK B h"
  using rd_wr_field [of B 2 0 "mem h" b v] by (auto simp: UMM_PBLOCK_def set_NBLOCK_def fun_eq_iff)
lemma NFREE_set_NBLOCK: "8 \<le> B \<Longrightarrow> UMM_NFREE B (set_NBLOCK B b v h) = UMM_NFREE B h"
  using rd_wr_field [of B 4 0 "mem h" b v] by (auto simp: UMM_NFREE_def set_NBLOCK_def fun_eq_iff)
lemma PFREE_set_NBLOCK: "8 \<le> B \<Longrightarrow> UMM_PFREE B (set_NBLOCK B b v h) = UMM_PFREE B h"
  using rd_wr_field [of B 6 0 "mem h" b v] by (auto simp: UMM_PFREE_def set_NBLOCK_def fun_eq_iff)

lemma NBLOCK_set_PBLOCK: "8 \<le> B \<Longrightarrow> UMM_NBLOCK B (set_PBLOCK B b v h) = UMM_NBLOCK B h"
  using rd_wr_field [of B 0 2 "mem h" b v] by (auto simp: UMM_NBLOCK_def set_PBLOCK_def fun_eq_iff)
lemma PBLOCK_set_PBLOCK: "8 \<le> B \<Longrightarrow> UMM_PBLOCK B (set_PBLOCK B b v h) = (UMM_PBLOCK B h)(b := u16 v)"
  using rd_wr_field [of B 2 2 "mem h" b v] by (auto simp: UMM_PBLOCK_def set_PBLOCK_def fun_eq_iff)
lemma NFREE_set_PBLOCK: "8 \<le> B \<Longrightarrow> UMM_NFREE B (set_PBLOCK B b v h) = UMM_NFREE B h"
  using rd_wr_field [of B 4 2 "mem h" b v] by (auto simp: UMM_NFREE_def set_PBLOCK_def fun_eq_iff)
lemma PFREE_set_PBLOCK: "8 \<le> B \<Longrightarrow> UMM_PFREE B (set_PBLOCK B b v h) = UMM_PFREE B h"
  using rd_wr_field [of B 6 2 "mem h" b v] by (auto simp: UMM_PFREE_def set_PBLOCK_def fun_eq_iff)

lemma NBLOCK_set_NFREE: "8 \<le> B \<Longrightarrow> UMM_NBLOCK B (set_NFREE B b v h) = UMM_NBLOCK B h"
  using rd_wr_field [of B 0 4 "mem h" b v] by (auto simp: UMM_NBLOCK_def set_NFREE_def fun_eq_iff)
lemma PBLOCK_set_NFREE: "8 \<le> B \<Longrightarrow> UMM_PBLOCK B (set_NFREE B b v h) = UMM_PBLOCK B h"
  using rd_wr_field [of B 2 4 "mem h" b v] by (auto simp: UMM_PBLOCK_def set_NFREE_def fun_eq_iff)
lemma NFREE_set_NFREE: "8 \<le> B \<Longrightarrow> UMM_NFREE B (set_NFREE B b v h) = (UMM_NFREE B h)(b := u16 v)"
  using rd_wr_field [of B 4 4 "mem h" b v] by (auto simp: UMM_NFREE_def set_NFREE_def fun_eq_iff)
lemma PFREE_set_NFREE: "8 \<le> B \<Longrightarrow> UMM_PFREE B (set_NFREE B b v h) = UMM_PFREE B h"
  using rd_wr_field [of B 6 4 "mem h" b v] by (auto simp: UMM_PFREE_def set_NFREE_def fun_eq_iff)

lemma NBLOCK_set_PFREE: "8 \<le> B \<Longrightarrow> UMM_NBLOCK B (set_PFREE B b v h) = UMM_NBLOCK B h"
  using rd_wr_field [of B 0 6 "mem h" b v] by (auto simp: UMM_NBLOCK_def set_PFREE_def fun_eq_iff)
lemma PBLOCK_set_PFREE: "8 \<le> B \<Longrightarrow> UMM_PBLOCK B (set_PFREE B b v h) = UMM_PBLOCK B h"
  using rd_wr_field [of B 2 6 "mem h" b v] by (auto simp: UMM_PBLOCK_def set_PFREE_def fun_eq_iff)
lemma NFREE_set_PFREE: "8 \<le> B \<Longrightarrow> UMM_NFREE B (set_PFREE B b v h) = UMM_NFREE B h"
  using rd_wr_field [of B 4 6 "mem h" b v] by (auto simp: UMM_NFREE_def set_PFREE_def fun_eq_iff)
lemma PFREE_set_PFREE: "8 \<le> B \<Longrightarrow> UMM_PFREE B (set_PFREE B b v h) = (UMM_PFREE B h)(b := u16 v)"
  using rd_wr_field [of B 6 6 "mem h" b v] by (auto simp: UMM_PFREE_def set_PFREE_def fun_eq_iff)

lemmas field_simps16 =
  NBLOCK_set_NBLOCK PBLOCK_set_NBLOCK NFREE_set_NBLOCK PFREE_set_NBLOCK
  NBLOCK_set_PBLOCK PBLOCK_set_PBLOCK NFREE_set_PBLOCK PFREE_set_PBLOCK
  NBLOCK_set_NFREE PBLOCK_set_NFREE NFREE_set_NFREE PFREE_set_NFREE
  NBLOCK_set_PFREE PBLOCK_set_PFREE NFREE_set_PFREE PFREE_set_PFREE

lemma numblocks_set [simp]:
  "numblocks (set_NBLOCK B b v h) = numblocks h"
  "numblocks (set_PBLOCK B b v h) = numblocks h"
  "numblocks (set_NFREE B b v h) = numblocks h"
  "numblocks (set_PFREE B b v h) = numblocks h"
  by (simp_all add: set_NBLOCK_def set_PBLOCK_def set_NFREE_def set_PFREE_def)

lemma heap_size_set [simp]:
  "heap_size (set_NBLOCK B b v h) = heap_size h"
  "heap_size (set_PBLOCK B b v h) = heap_size h"
  "heap_size (set_NFREE B b v h) = heap_size h"
  "heap_size (set_PFREE B b v h) = heap_size h"
  by (simp_all add: set_NBLOCK_def set_PBLOCK_def set_NFREE_def set_PFREE_def)

lemma NBLOCK_lt: "UMM_NBLOCK B h b < 65536" by (simp add: UMM_NBLOCK_def rd16_lt)
lemma PBLOCK_lt: "UMM_PBLOCK B h b < 65536" by (simp add: UMM_PBLOCK_def rd16_lt)
lemma NFREE_lt: "UMM_NFREE B h b < 65536" by (simp add: UMM_NFREE_def rd16_lt)
lemma PFREE_lt: "UMM_PFREE B h b < 65536" by (simp add: UMM_PFREE_def rd16_lt)

lemma nb_eq: "nb B h i = UMM_NBLOCK B h i mod 32768"
  by (simp add: nb_def mask_blockno)

lemma is_free_eq: "is_free B h i = (32768 \<le> UMM_NBLOCK B h i)"
  unfolding is_free_def by (rule mask_free [OF NBLOCK_lt])

lemma nb_lt: "nb B h i < 32768" by (simp add: nb_eq)

lemma nb_used: "\<not> is_free B h i \<Longrightarrow> UMM_NBLOCK B h i = nb B h i"
  by (simp add: nb_eq is_free_eq)

lemma nb_free: "is_free B h i \<Longrightarrow> UMM_NBLOCK B h i = nb B h i + 32768"
proof -
  assume "is_free B h i"
  then have "32768 \<le> UMM_NBLOCK B h i" by (simp add: is_free_eq)
  moreover have "UMM_NBLOCK B h i < 65536" by (rule NBLOCK_lt)
  ultimately have "UMM_NBLOCK B h i mod 32768 = UMM_NBLOCK B h i - 32768"
    by (simp add: mod_if)
  with \<open>32768 \<le> UMM_NBLOCK B h i\<close> show ?thesis by (simp add: nb_eq)
qed

subsection \<open>The block chain\<close>

lemma chain_ok_bounds:
  assumes "chain_ok N nx pb S"
  shows "2 \<le> N" "N \<le> 32767" "0 \<in> S" "N - 1 \<in> S" "nx (N - 1) = 0"
  using assms by (simp_all add: chain_ok_def)

lemma chain_ok_lt: "chain_ok N nx pb S \<Longrightarrow> i \<in> S \<Longrightarrow> i < N"
  by (simp add: chain_ok_def)

lemma chain_ok_next:
  assumes "chain_ok N nx pb S" "i \<in> S" "i \<noteq> N - 1"
  shows "nx i \<in> S" "i < nx i" "pb (nx i) = i"
  using assms by (simp_all add: chain_ok_def)

lemma chain_ok_between:
  assumes "chain_ok N nx pb S" "i \<in> S" "j \<in> S" "i < j"
  shows "nx i \<le> j"
proof -
  from assms have "j < N" by (simp add: chain_ok_def)
  with \<open>i < j\<close> have "i \<noteq> N - 1" by simp
  with assms have "\<forall>j\<in>S. j \<le> i \<or> nx i \<le> j" by (simp add: chain_ok_def)
  with \<open>j \<in> S\<close> \<open>i < j\<close> show ?thesis by auto
qed

lemma chain_ok_finite: "chain_ok N nx pb S \<Longrightarrow> finite S"
proof -
  assume "chain_ok N nx pb S"
  then have "S \<subseteq> {..<N}" by (auto simp: chain_ok_def)
  then show ?thesis by (rule finite_subset) simp
qed

lemma chain_ok_pred:
  assumes ok: "chain_ok N nx pb S" and i: "i \<in> S" "i \<noteq> 0"
  shows "pb i \<in> S" "pb i < i" "nx (pb i) = i"
proof -
  define P where "P = {j \<in> S. j < i}"
  have fin: "finite P" using chain_ok_finite [OF ok] by (simp add: P_def)
  have ne: "P \<noteq> {}" using chain_ok_bounds(3) [OF ok] i by (auto simp: P_def)
  define p where "p = Max P"
  have pP: "p \<in> P" unfolding p_def using fin ne by (rule Max_in)
  then have p: "p \<in> S" "p < i" by (simp_all add: P_def)
  from chain_ok_lt [OF ok i(1)] p have "p \<noteq> N - 1" by simp
  note nxt = chain_ok_next [OF ok p(1) this]
  have "nx p \<le> i" using ok p(1) i(1) p(2) by (rule chain_ok_between)
  moreover have "\<not> nx p < i"
  proof
    assume "nx p < i"
    with nxt(1) have "nx p \<in> P" by (simp add: P_def)
    then have "nx p \<le> p" unfolding p_def using fin by simp
    with nxt(2) show False by simp
  qed
  ultimately have "nx p = i" by simp
  with nxt(3) have "pb i = p" by simp
  with p \<open>nx p = i\<close> show "pb i \<in> S" "pb i < i" "nx (pb i) = i" by simp_all
qed

lemma chain_ok_pred_ne_last:
  assumes "chain_ok N nx pb S" "i \<in> S" "i \<noteq> 0"
  shows "pb i \<noteq> N - 1"
  using chain_ok_pred(2) [OF assms] chain_ok_lt [OF assms(1,2)] by simp

lemma chain_ok_next_ne0:
  assumes "chain_ok N nx pb S" "i \<in> S" "i \<noteq> N - 1"
  shows "nx i \<noteq> 0"
  using chain_ok_next(2) [OF assms] by simp

lemma chain_ok_cong:
  assumes "chain_ok N nx pb S"
    and "\<forall>i\<in>S. nx' i = nx i" and "\<forall>i\<in>S. pb' i = pb i"
  shows "chain_ok N nx' pb' S"
  using assms unfolding chain_ok_def by simp

text \<open>Merging block \<open>n\<close> into its predecessor.\<close>

lemma chain_ok_remove:
  assumes ok: "chain_ok N nx pb S"
    and n: "n \<in> S" "n \<noteq> 0" "n \<noteq> N - 1"
    and nx': "\<forall>i\<in>S - {n}. nx' i = (if i = pb n then nx n else nx i)"
    and pb': "\<forall>i\<in>S - {n}. pb' i = (if i = nx n then pb n else pb i)"
  shows "chain_ok N nx' pb' (S - {n})"
proof -
  note b = chain_ok_bounds [OF ok]
  note pr = chain_ok_pred [OF ok n(1,2)]
  note sn = chain_ok_next [OF ok n(1,3)]
  have last_in: "N - 1 \<in> S - {n}" using b n by simp
  have plast: "pb n \<noteq> N - 1" using chain_ok_pred_ne_last [OF ok n(1,2)] .
  have "nx' (N - 1) = 0" using nx' last_in plast b by auto
  moreover have "\<forall>i\<in>S - {n}. i \<noteq> N - 1 \<longrightarrow>
      nx' i \<in> S - {n} \<and> i < nx' i \<and> (\<forall>j\<in>S - {n}. j \<le> i \<or> nx' i \<le> j) \<and> pb' (nx' i) = i"
  proof (intro ballI impI)
    fix i assume i: "i \<in> S - {n}" "i \<noteq> N - 1"
    then have iS: "i \<in> S" "i \<noteq> n" by simp_all
    note si = chain_ok_next [OF ok iS(1) i(2)]
    show "nx' i \<in> S - {n} \<and> i < nx' i \<and> (\<forall>j\<in>S - {n}. j \<le> i \<or> nx' i \<le> j) \<and> pb' (nx' i) = i"
    proof (cases "i = pb n")
      case True
      then have e: "nx' i = nx n" using nx' i(1) by simp
      have m: "nx n \<in> S - {n}" using sn by simp
      have "\<forall>j\<in>S - {n}. j \<le> i \<or> nx n \<le> j"
      proof
        fix j assume j: "j \<in> S - {n}"
        show "j \<le> i \<or> nx n \<le> j"
        proof (cases "j \<le> i")
          case False
          then have "i < j" by simp
          with ok iS(1) j have "nx i \<le> j" by (intro chain_ok_between [of N nx pb S]) simp_all
          with True pr(3) j have "n < j" by simp
          with ok n(1) j have "nx n \<le> j" by (intro chain_ok_between [of N nx pb S]) simp_all
          then show ?thesis ..
        qed simp
      qed
      moreover have "pb' (nx n) = pb n" using pb' m by simp
      moreover have "i < nx n" using True pr(2) sn(2) by simp
      ultimately show ?thesis using e m True by simp
    next
      case False
      then have e: "nx' i = nx i" using nx' i(1) by simp
      have "nx i \<noteq> n" using si(3) False by auto
      with si(1) have m: "nx i \<in> S - {n}" by simp
      have "nx i \<noteq> nx n" using si(3) sn(3) iS(2) by metis
      with pb' m have "pb' (nx i) = pb (nx i)" by simp
      moreover have "\<forall>j\<in>S - {n}. j \<le> i \<or> nx i \<le> j"
        using chain_ok_between [OF ok iS(1)] by (metis DiffD1 not_le_imp_less)
      ultimately show ?thesis using e m si by simp
    qed
  qed
  ultimately show ?thesis
    using b n chain_ok_lt [OF ok] unfolding chain_ok_def by simp
qed

text \<open>Splitting block \<open>c\<close> after its first \<open>k\<close> blocks.\<close>

lemma chain_ok_split_notin:
  assumes ok: "chain_ok N nx pb S" and c: "c \<in> S" and k: "0 < k" "c + k < nx c"
  shows "c + k \<notin> S"
proof
  assume "c + k \<in> S"
  with ok c have "nx c \<le> c + k" using k(1) by (intro chain_ok_between [of N nx pb S]) simp_all
  with k(2) show False by simp
qed

lemma chain_ok_insert:
  assumes ok: "chain_ok N nx pb S"
    and c: "c \<in> S" "c \<noteq> N - 1" and k: "0 < k" "c + k < nx c"
    and nx': "nx' c = c + k" "nx' (c + k) = nx c" "\<forall>i\<in>S - {c}. nx' i = nx i"
    and pb': "pb' (c + k) = c" "pb' (nx c) = c + k" "\<forall>i\<in>S - {nx c}. pb' i = pb i"
  shows "chain_ok N nx' pb' (insert (c + k) S)"
proof -
  note b = chain_ok_bounds [OF ok]
  note sc = chain_ok_next [OF ok c]
  have notin: "c + k \<notin> S" using ok c(1) k by (rule chain_ok_split_notin)
  have lt: "c + k < N" using chain_ok_lt [OF ok sc(1)] k by simp
  have "nx' (N - 1) = 0" using nx'(3) b c by auto
  moreover have "\<forall>i\<in>insert (c + k) S. i \<noteq> N - 1 \<longrightarrow>
      nx' i \<in> insert (c + k) S \<and> i < nx' i \<and> (\<forall>j\<in>insert (c + k) S. j \<le> i \<or> nx' i \<le> j) \<and> pb' (nx' i) = i"
  proof (intro ballI impI)
    fix i assume i: "i \<in> insert (c + k) S" "i \<noteq> N - 1"
    consider "i = c + k" | "i = c" | "i \<in> S" "i \<noteq> c" using i(1) by auto
    then show "nx' i \<in> insert (c + k) S \<and> i < nx' i \<and> (\<forall>j\<in>insert (c + k) S. j \<le> i \<or> nx' i \<le> j) \<and> pb' (nx' i) = i"
    proof cases
      case 1
      have "\<forall>j\<in>insert (c + k) S. j \<le> c + k \<or> nx c \<le> j"
      proof
        fix j assume "j \<in> insert (c + k) S"
        then consider "j = c + k" | "j \<in> S" by auto
        then show "j \<le> c + k \<or> nx c \<le> j"
        proof cases
          case 2
          show ?thesis
          proof (cases "j \<le> c")
            case False
            then have "c < j" by simp
            with ok c(1) 2 have "nx c \<le> j" by (intro chain_ok_between [of N nx pb S]) simp_all
            then show ?thesis ..
          qed simp
        qed simp
      qed
      with 1 nx'(2) pb'(2) sc k show ?thesis by simp
    next
      case 2
      have "\<forall>j\<in>insert (c + k) S. j \<le> c \<or> c + k \<le> j"
      proof
        fix j assume "j \<in> insert (c + k) S"
        then consider "j = c + k" | "j \<in> S" by auto
        then show "j \<le> c \<or> c + k \<le> j"
        proof cases
          case 2
          show ?thesis
          proof (cases "j \<le> c")
            case False
            then have "c < j" by simp
            with ok c(1) 2 have "nx c \<le> j" by (intro chain_ok_between [of N nx pb S]) simp_all
            with k(2) show ?thesis by simp
          qed simp
        qed simp
      qed
      with 2 nx'(1) pb'(1) k show ?thesis by simp
    next
      case 3
      note si = chain_ok_next [OF ok 3(1) i(2)]
      have e: "nx' i = nx i" using nx'(3) 3 by simp
      have "nx i \<noteq> nx c" using si(3) sc(3) 3(2) by metis
      with pb'(3) si(1) have p: "pb' (nx i) = i" using si(3) by simp
      have "\<forall>j\<in>insert (c + k) S. j \<le> i \<or> nx i \<le> j"
      proof
        fix j assume "j \<in> insert (c + k) S"
        then consider "j = c + k" | "j \<in> S" by auto
        then show "j \<le> i \<or> nx i \<le> j"
        proof cases
          case 1
          show ?thesis
          proof (cases "i < c")
            case True
            with ok 3(1) c(1) have "nx i \<le> c" by (intro chain_ok_between [of N nx pb S]) simp_all
            with 1 show ?thesis by simp
          next
            case False
            with 3(2) have "c < i" by simp
            with ok c(1) 3(1) have "nx c \<le> i" by (intro chain_ok_between [of N nx pb S]) simp_all
            with k(2) 1 show ?thesis by simp
          qed
        next
          case 2
          show ?thesis
          proof (cases "j \<le> i")
            case False
            then have "i < j" by simp
            with ok 3(1) 2 have "nx i \<le> j" by (intro chain_ok_between [of N nx pb S]) simp_all
            then show ?thesis ..
          qed simp
        qed
      qed
      with e p si show ?thesis by simp
    qed
  qed
  ultimately show ?thesis
    using b lt chain_ok_lt [OF ok] unfolding chain_ok_def by simp
qed

lemma chain_eq:
  assumes ok: "chain_ok N (nb B h) pb S"
  shows "chain B h = S"
proof (intro set_eqI iffI)
  fix i assume "i \<in> chain B h"
  then show "i \<in> S"
  proof induction
    case chain_head
    show ?case using chain_ok_bounds(3) [OF ok] .
  next
    case (chain_next i)
    from chain_next.hyps(2) chain_ok_bounds(5) [OF ok] have "i \<noteq> N - 1" by auto
    with ok chain_next.IH show ?case by (rule chain_ok_next(1))
  qed
next
  fix i assume "i \<in> S"
  then show "i \<in> chain B h"
  proof (induction i rule: less_induct)
    case (less i)
    show ?case
    proof (cases "i = 0")
      case True
      then show ?thesis by (simp add: chain.chain_head)
    next
      case False
      note pr = chain_ok_pred [OF ok less.prems False]
      from less.IH [OF pr(2) pr(1)] have "pb i \<in> chain B h" .
      moreover from pr(3) False have "nb B h (pb i) \<noteq> 0" by simp
      ultimately have "nb B h (pb i) \<in> chain B h" by (rule chain.chain_next)
      with pr(3) show ?thesis by simp
    qed
  qed
qed

subsection \<open>The free ring\<close>

lemma dll_cong:
  assumes "\<forall>x\<in>insert p (set xs). nf' x = nf x" and "\<forall>x\<in>insert 0 (set xs). pf' x = pf x"
  shows "dll nf' pf' p xs = dll nf pf p xs"
  using assms by (induction xs arbitrary: p) auto

lemma dll_NilI: "nf p = 0 \<Longrightarrow> pf 0 = p \<Longrightarrow> dll nf pf p []"
  by simp

lemma dll_ConsI: "nf p = x \<Longrightarrow> pf x = p \<Longrightarrow> dll nf pf x xs \<Longrightarrow> dll nf pf p (x # xs)"
  by simp

lemma dll_nf_upd:
  "a \<noteq> p \<Longrightarrow> a \<notin> set xs \<Longrightarrow> dll (nf(a := u)) pf p xs = dll nf pf p xs"
  by (rule dll_cong) auto

lemma dll_pf_upd:
  "b \<noteq> 0 \<Longrightarrow> b \<notin> set xs \<Longrightarrow> dll nf (pf(b := v)) p xs = dll nf pf p xs"
  by (rule dll_cong) auto

lemma dll_pf_mid:
  "dll nf pf p (xs @ c # ys) \<Longrightarrow> pf c = last (p # xs)"
  by (induction xs arbitrary: p) auto

lemma dll_nf_mid:
  "dll nf pf p (xs @ c # ys) \<Longrightarrow> nf c = hd (ys @ [0])"
  by (induction xs arbitrary: p) (cases ys, auto)

lemma dll_suffix:
  "dll nf pf p (xs @ ys) \<Longrightarrow> dll nf pf (last (p # xs)) ys"
  by (induction xs arbitrary: p) auto

text \<open>Unlinking the node \<open>c\<close>, as \<^verbatim>\<open>umm_disconnect_from_free_list\<close> does.\<close>

lemma dll_remove:
  assumes "dll nf pf p (xs @ c # ys)" and "distinct (xs @ c # ys)"
    and "p \<notin> set (xs @ c # ys)" and "0 \<notin> set (xs @ c # ys)"
  shows "dll (nf(pf c := nf c)) (pf(nf c := pf c)) p (xs @ ys)"
  using assms
proof (induction xs arbitrary: p)
  case Nil
  then have c: "nf p = c" "pf c = p" and rest: "dll nf pf c ys" by simp_all
  show ?case
  proof (cases ys)
    case Nil
    with rest have "nf c = 0" by simp
    then have "dll (nf(pf c := nf c)) (pf(nf c := pf c)) p []"
      unfolding c by (intro dll_NilI) simp_all
    then show ?thesis unfolding Nil append_Nil .
  next
    case (Cons y zs)
    with rest have y: "nf c = y" "pf y = c" and r2: "dll nf pf y zs" by simp_all
    from Nil.prems Cons have "y \<noteq> p" "p \<notin> set zs" "y \<noteq> 0" "y \<notin> set zs" by auto
    with r2 have "dll (nf(p := y)) (pf(y := p)) y zs" by (simp add: dll_nf_upd dll_pf_upd)
    then have "dll (nf(p := y)) (pf(y := p)) p (y # zs)" by (intro dll_ConsI) simp_all
    then show ?thesis unfolding Cons c y append_Nil .
  qed
next
  case (Cons x xs)
  then have x: "nf p = x" "pf x = p" and rest: "dll nf pf x (xs @ c # ys)" by simp_all
  have IH: "dll (nf(pf c := nf c)) (pf(nf c := pf c)) x (xs @ ys)"
    using Cons.prems rest by (intro Cons.IH) auto
  have pfc: "pf c = last (x # xs)" using rest by (rule dll_pf_mid)
  have nfc: "nf c = hd (ys @ [0])" using rest by (rule dll_nf_mid)
  have "pf c \<in> set (x # xs)" unfolding pfc by (rule last_in_set) simp
  with Cons.prems(3) have "pf c \<noteq> p" by auto
  moreover have "nf c \<noteq> x"
  proof (cases ys)
    case Nil
    with nfc Cons.prems(4) show ?thesis by auto
  next
    case (Cons y zs)
    with nfc \<open>distinct ((x # xs) @ c # ys)\<close> show ?thesis by auto
  qed
  ultimately have "(nf(pf c := nf c)) p = x" "(pf(nf c := pf c)) x = p" using x by simp_all
  with IH have "dll (nf(pf c := nf c)) (pf(nf c := pf c)) p (x # xs @ ys)" by (intro dll_ConsI)
  then show ?case unfolding append_Cons .
qed

text \<open>Linking \<open>c\<close> in at the head, as \<^verbatim>\<open>umm_free_core\<close> does.\<close>

lemma dll_insert_head:
  assumes "dll nf pf 0 fl" and "c \<notin> set fl" "c \<noteq> 0" "0 \<notin> set fl" "distinct fl"
  shows "dll (nf(c := nf 0, 0 := c)) (pf(nf 0 := c, c := 0)) 0 (c # fl)"
proof (cases fl)
  case Nil
  with assms have z: "nf 0 = 0" by simp
  have "dll (nf(c := 0, 0 := c)) (pf(0 := c, c := 0)) c []"
    using assms(3) by (intro dll_NilI) simp_all
  then have "dll (nf(c := 0, 0 := c)) (pf(0 := c, c := 0)) 0 [c]"
    using assms(3) by (intro dll_ConsI) simp_all
  then show ?thesis unfolding Nil z .
next
  case (Cons x r)
  with assms(1) have x: "nf 0 = x" "pf x = 0" and rest: "dll nf pf x r" by simp_all
  from assms Cons have ne: "c \<noteq> x" "c \<notin> set r" "x \<noteq> 0" "0 \<notin> set r" "x \<notin> set r" by auto
  with rest assms(3) have "dll (nf(c := x, 0 := c)) (pf(x := c, c := 0)) x r"
    by (simp add: dll_nf_upd dll_pf_upd)
  then have "dll (nf(c := x, 0 := c)) (pf(x := c, c := 0)) c (x # r)"
    using ne assms(3) by (intro dll_ConsI) simp_all
  then have "dll (nf(c := x, 0 := c)) (pf(x := c, c := 0)) 0 (c # x # r)"
    using ne assms(3) by (intro dll_ConsI) simp_all
  then show ?thesis unfolding Cons x .
qed

text \<open>Replacing the node \<open>c\<close> by \<open>d\<close>, as the split branch of \<^verbatim>\<open>umm_malloc_core\<close> does.\<close>

lemma dll_replace:
  assumes "dll nf pf p (xs @ c # ys)" and "distinct (xs @ c # ys)"
    and "p \<notin> set (xs @ c # ys)" and "0 \<notin> set (xs @ c # ys)"
    and "d \<notin> set (xs @ c # ys)" "d \<noteq> 0" "d \<noteq> p"
  shows "dll (nf(pf c := d, d := nf c)) (pf(d := pf c, nf c := d)) p (xs @ d # ys)"
  using assms
proof (induction xs arbitrary: p)
  case Nil
  then have c: "nf p = c" "pf c = p" and rest: "dll nf pf c ys" by simp_all
  show ?case
  proof (cases ys)
    case Nil
    with rest have z: "nf c = 0" by simp
    have "dll (nf(p := d, d := 0)) (pf(d := p, 0 := d)) d []"
      using \<open>d \<noteq> p\<close> \<open>d \<noteq> 0\<close> by (intro dll_NilI) simp_all
    then have "dll (nf(p := d, d := 0)) (pf(d := p, 0 := d)) p [d]"
      using \<open>d \<noteq> p\<close> \<open>d \<noteq> 0\<close> by (intro dll_ConsI) simp_all
    then show ?thesis unfolding Nil c z append_Nil .
  next
    case (Cons y zs)
    with rest have y: "nf c = y" "pf y = c" and r2: "dll nf pf y zs" by simp_all
    from Nil.prems Cons have ne: "y \<noteq> p" "p \<notin> set zs" "y \<noteq> 0" "y \<notin> set zs"
      "d \<noteq> y" "d \<notin> set zs" "d \<noteq> 0" "d \<noteq> p" by auto
    with r2 have "dll (nf(p := d, d := y)) (pf(d := p, y := d)) y zs"
      by (simp add: dll_nf_upd dll_pf_upd)
    then have "dll (nf(p := d, d := y)) (pf(d := p, y := d)) d (y # zs)"
      using ne by (intro dll_ConsI) simp_all
    then have "dll (nf(p := d, d := y)) (pf(d := p, y := d)) p (d # y # zs)"
      using ne by (intro dll_ConsI) simp_all
    then show ?thesis unfolding Cons c y append_Nil .
  qed
next
  case (Cons x xs)
  then have x: "nf p = x" "pf x = p" and rest: "dll nf pf x (xs @ c # ys)" by simp_all
  have IH: "dll (nf(pf c := d, d := nf c)) (pf(d := pf c, nf c := d)) x (xs @ d # ys)"
    using Cons.prems rest by (intro Cons.IH) auto
  have pfc: "pf c = last (x # xs)" using rest by (rule dll_pf_mid)
  have nfc: "nf c = hd (ys @ [0])" using rest by (rule dll_nf_mid)
  have "pf c \<in> set (x # xs)" unfolding pfc by (rule last_in_set) simp
  with Cons.prems(3) have "pf c \<noteq> p" by auto
  moreover have "nf c \<noteq> x"
  proof (cases ys)
    case Nil
    with nfc Cons.prems(4) show ?thesis by auto
  next
    case (Cons y zs)
    with nfc \<open>distinct ((x # xs) @ c # ys)\<close> show ?thesis by auto
  qed
  moreover from Cons.prems have "d \<noteq> p" "d \<noteq> x" by auto
  ultimately have "(nf(pf c := d, d := nf c)) p = x" "(pf(d := pf c, nf c := d)) x = p"
    using x by simp_all
  with IH have "dll (nf(pf c := d, d := nf c)) (pf(d := pf c, nf c := d)) p (x # xs @ d # ys)"
    by (intro dll_ConsI)
  then show ?case unfolding append_Cons .
qed

subsection \<open>The invariant under the steps of the primitives\<close>

lemma heap_invD:
  assumes "heap_inv N nx fr pb nf pf S fl"
  shows "chain_ok N nx pb S" "flags_ok N nx fr S fl" "dll nf pf 0 fl" "distinct fl"
  using assms by (simp_all add: heap_inv_def)

lemma flags_okD:
  assumes "flags_ok N nx fr S fl"
  shows "\<not> fr 0" "\<not> fr (N - 1)" "set fl = {i \<in> S. fr i}" "\<And>i. i \<in> S \<Longrightarrow> fr i \<Longrightarrow> \<not> fr (nx i)"
  using assms by (simp_all add: flags_ok_def)

lemma heap_inv_free_in:
  assumes "heap_inv N nx fr pb nf pf S fl" "c \<in> set fl"
  shows "c \<in> S" "fr c" "c \<noteq> 0" "c \<noteq> N - 1"
  using flags_okD [OF heap_invD(2) [OF assms(1)]] assms(2) by auto

lemma heap_inv_zero_notin: "heap_inv N nx fr pb nf pf S fl \<Longrightarrow> 0 \<notin> set fl"
  using heap_inv_free_in(3) by blast

lemma heap_inv_cong:
  assumes "heap_inv N nx fr pb nf pf S fl"
    and "\<forall>i\<in>S. nx' i = nx i \<and> fr' i = fr i \<and> pb' i = pb i"
    and "\<forall>i\<in>insert 0 (set fl). nf' i = nf i \<and> pf' i = pf i"
  shows "heap_inv N nx' fr' pb' nf' pf' S fl"
proof -
  note ok = heap_invD [OF assms(1)]
  note b = chain_ok_bounds [OF ok(1)]
  have a: "\<forall>i\<in>S. nx' i = nx i" "\<forall>i\<in>S. pb' i = pb i" "\<forall>i\<in>S. fr' i = fr i"
    using assms(2) by blast+
  have "chain_ok N nx' pb' S" using ok(1) a(1,2) by (rule chain_ok_cong)
  moreover have "flags_ok N nx' fr' S fl"
    unfolding flags_ok_def
  proof (intro conjI ballI impI)
    note fl = flags_okD [OF ok(2)]
    show "\<not> fr' 0" using fl(1) a(3) b(3) by simp
    show "\<not> fr' (N - 1)" using fl(2) a(3) b(4) by simp
    have "{i \<in> S. fr' i} = {i \<in> S. fr i}" using a(3) by auto
    with fl(3) show "set fl = {i \<in> S. fr' i}" by simp
    fix i assume i: "i \<in> S" "fr' i"
    with a(3) have fi: "fr i" by simp
    with fl(2) have "i \<noteq> N - 1" by auto
    note si = chain_ok_next [OF ok(1) i(1) this]
    from fl(4) [OF i(1) fi] si(1) a(1,3) i(1) show "\<not> fr' (nx' i)" by simp
  qed
  moreover have "dll nf' pf' 0 fl = dll nf pf 0 fl" using assms(3) by (intro dll_cong) blast+
  ultimately show ?thesis using ok by (simp add: heap_inv_def)
qed

lemma heap_inv_disconnect:
  assumes "heap_inv N nx fr pb nf pf S (xs @ c # ys)"
  shows "heap_inv N nx (fr(c := False)) pb (nf(pf c := nf c)) (pf(nf c := pf c)) S (xs @ ys)"
proof -
  note ok = heap_invD [OF assms]
  note fl = flags_okD [OF ok(2)]
  have z: "0 \<notin> set (xs @ c # ys)" using assms by (rule heap_inv_zero_notin)
  have "flags_ok N nx (fr(c := False)) S (xs @ ys)"
    unfolding flags_ok_def using fl ok(4) by auto
  moreover have "dll (nf(pf c := nf c)) (pf(nf c := pf c)) 0 (xs @ ys)"
    using ok(3,4) z z by (rule dll_remove)
  ultimately show ?thesis using ok by (simp add: heap_inv_def)
qed

lemma heap_inv_merge:
  assumes inv: "heap_inv N nx fr pb nf pf S fl"
    and n: "n \<in> S" "n \<noteq> 0" "n \<noteq> N - 1" "\<not> fr n"
    and adj: "fr (pb n) \<longrightarrow> \<not> fr (nx n)"
  shows "heap_inv N (nx(pb n := nx n)) fr (pb(nx n := pb n)) nf pf (S - {n}) fl"
proof -
  note ok = heap_invD [OF inv]
  note fl = flags_okD [OF ok(2)]
  have "chain_ok N (nx(pb n := nx n)) (pb(nx n := pb n)) (S - {n})"
    using ok(1) n(1-3) by (rule chain_ok_remove) simp_all
  moreover have "flags_ok N (nx(pb n := nx n)) fr (S - {n}) fl"
    unfolding flags_ok_def using fl n(4) adj by auto
  ultimately show ?thesis using ok by (simp add: heap_inv_def)
qed

lemma heap_inv_insert_head:
  assumes inv: "heap_inv N nx fr pb nf pf S fl"
    and c: "c \<in> S" "c \<noteq> 0" "c \<noteq> N - 1" "\<not> fr c" "\<not> fr (nx c)" "\<not> fr (pb c)"
  shows "heap_inv N nx (fr(c := True)) pb (nf(c := nf 0, 0 := c)) (pf(nf 0 := c, c := 0)) S (c # fl)"
proof -
  note ok = heap_invD [OF inv]
  note fl = flags_okD [OF ok(2)]
  note b = chain_ok_bounds [OF ok(1)]
  have z: "0 \<notin> set fl" using inv by (rule heap_inv_zero_notin)
  have cfl: "c \<notin> set fl" using fl(3) c(4) by simp
  have nxc: "nx c \<noteq> c" using chain_ok_next(2) [OF ok(1) c(1,3)] by simp
  have "\<forall>i\<in>S. (fr(c := True)) i \<longrightarrow> \<not> (fr(c := True)) (nx i)"
  proof (intro ballI impI)
    fix i assume i: "i \<in> S" "(fr(c := True)) i"
    show "\<not> (fr(c := True)) (nx i)"
    proof (cases "i = c")
      case True
      with c(5) nxc show ?thesis by simp
    next
      case False
      with i have fi: "fr i" by simp
      with fl(2) have "i \<noteq> N - 1" by auto
      note si = chain_ok_next [OF ok(1) i(1) this]
      have "nx i \<noteq> c" using si(3) fi c(6) by auto
      with fl(4) [OF i(1) fi] show ?thesis by simp
    qed
  qed
  then have "flags_ok N nx (fr(c := True)) S (c # fl)"
    unfolding flags_ok_def using fl(1-3) c(1-3) by auto
  moreover have "dll (nf(c := nf 0, 0 := c)) (pf(nf 0 := c, c := 0)) 0 (c # fl)"
    using ok(3) cfl c(2) z ok(4) by (rule dll_insert_head)
  ultimately show ?thesis using ok cfl by (simp add: heap_inv_def)
qed

lemma heap_inv_split_used:
  assumes inv: "heap_inv N nx fr pb nf pf S fl"
    and c: "c \<in> S" "c \<noteq> N - 1" "\<not> fr c" and k: "0 < k" "c + k < nx c"
  shows "heap_inv N (nx(c + k := nx c, c := c + k)) (fr(c + k := False))
           (pb(c + k := c, nx c := c + k)) nf pf (insert (c + k) S) fl"
proof -
  note ok = heap_invD [OF inv]
  note fl = flags_okD [OF ok(2)]
  note b = chain_ok_bounds [OF ok(1)]
  have notin: "c + k \<notin> S" using ok(1) c(1) k by (rule chain_ok_split_notin)
  have "chain_ok N (nx(c + k := nx c, c := c + k)) (pb(c + k := c, nx c := c + k)) (insert (c + k) S)"
    using ok(1) c(1,2) k by (rule chain_ok_insert) (use k notin in auto)
  moreover have "flags_ok N (nx(c + k := nx c, c := c + k)) (fr(c + k := False)) (insert (c + k) S) fl"
  proof -
    have "\<forall>i\<in>S. fr i \<longrightarrow> nx i \<in> S"
      using chain_ok_next(1) [OF ok(1)] fl(2) by metis
    then show ?thesis unfolding flags_ok_def using fl c(3) notin by auto
  qed
  ultimately show ?thesis using ok by (simp add: heap_inv_def)
qed

lemma heap_inv_split_free:
  assumes inv: "heap_inv N nx fr pb nf pf S (xs @ c # ys)"
    and k: "0 < k" "c + k < nx c" and d: "d = c + k"
  shows "heap_inv N (nx(d := nx c, c := d)) (fr(d := True, c := False))
           (pb(d := c, nx c := d)) (nf(pf c := d, d := nf c)) (pf(d := pf c, nf c := d))
           (insert d S) (xs @ d # ys)"
proof -
  note ok = heap_invD [OF inv]
  note fl = flags_okD [OF ok(2)]
  note b = chain_ok_bounds [OF ok(1)]
  have "c \<in> set (xs @ c # ys)" by simp
  note c = heap_inv_free_in [OF inv this]
  have z: "0 \<notin> set (xs @ c # ys)" using inv by (rule heap_inv_zero_notin)
  have notin: "d \<notin> S" unfolding d using ok(1) c(1) k by (rule chain_ok_split_notin)
  have dfl: "d \<notin> set (xs @ c # ys)" using notin fl(3) by simp
  have d0: "d \<noteq> 0" using d k by simp
  have dl: "d \<noteq> N - 1" using notin b by auto
  note sc = chain_ok_next [OF ok(1) c(1,4)]
  have "chain_ok N (nx(c + k := nx c, c := c + k)) (pb(c + k := c, nx c := c + k)) (insert (c + k) S)"
    using ok(1) c(1,4) k by (rule chain_ok_insert) (use k notin d in auto)
  then have 1: "chain_ok N (nx(d := nx c, c := d)) (pb(d := c, nx c := d)) (insert d S)"
    by (simp add: d)
  have adj: "\<forall>i\<in>insert d S. (fr(d := True, c := False)) i \<longrightarrow>
              \<not> (fr(d := True, c := False)) ((nx(d := nx c, c := d)) i)"
  proof (intro ballI impI)
    fix i assume i: "i \<in> insert d S" "(fr(d := True, c := False)) i"
    then have ic: "i \<noteq> c" by auto
    show "\<not> (fr(d := True, c := False)) ((nx(d := nx c, c := d)) i)"
    proof (cases "i = d")
      case True
      have "nx c \<noteq> d" using k d by simp
      moreover have "\<not> fr (nx c)" using fl(4) [OF c(1,2)] .
      ultimately show ?thesis using True ic by simp
    next
      case False
      with i ic have iS: "i \<in> S" and fi: "fr i" by auto
      with fl(2) have "i \<noteq> N - 1" by auto
      note si = chain_ok_next [OF ok(1) iS this]
      have "nx i \<noteq> d" using si(1) notin by auto
      with fl(4) [OF iS fi] False ic show ?thesis by simp
    qed
  qed
  have 2: "flags_ok N (nx(d := nx c, c := d)) (fr(d := True, c := False)) (insert d S) (xs @ d # ys)"
    unfolding flags_ok_def
  proof (intro conjI)
    show "\<not> (fr(d := True, c := False)) 0" using fl(1) d0 by simp
    show "\<not> (fr(d := True, c := False)) (N - 1)" using fl(2) dl by simp
    show "set (xs @ d # ys) = {i \<in> insert d S. (fr(d := True, c := False)) i}"
      using fl(3) ok(4) notin c(1) by auto
    show "\<forall>i\<in>insert d S. (fr(d := True, c := False)) i \<longrightarrow>
              \<not> (fr(d := True, c := False)) ((nx(d := nx c, c := d)) i)" by (rule adj)
  qed
  have 3: "dll (nf(pf c := d, d := nf c)) (pf(d := pf c, nf c := d)) 0 (xs @ d # ys)"
    using ok(3,4) z z dfl d0 d0 by (rule dll_replace)
  have 4: "distinct (xs @ d # ys)" using ok(4) dfl by auto
  show ?thesis using 1 2 3 4 by (simp add: heap_inv_def)
qed

subsection \<open>What the primitives do to the five views of the heap\<close>

lemma u16_id: "x < 65536 \<Longrightarrow> u16 x = x"
  by (simp add: u16_def)

lemma u16_fields [simp]:
  "u16 (UMM_NBLOCK B h b) = UMM_NBLOCK B h b"
  "u16 (UMM_PBLOCK B h b) = UMM_PBLOCK B h b"
  "u16 (UMM_NFREE B h b) = UMM_NFREE B h b"
  "u16 (UMM_PFREE B h b) = UMM_PFREE B h b"
  by (simp_all add: u16_id NBLOCK_lt PBLOCK_lt NFREE_lt PFREE_lt)

lemma u16_mod [simp]: "u16 (x mod 32768) = x mod 32768"
  by (simp add: u16_def)

lemma u16_mod32768 [simp]: "u16 x mod 32768 = x mod 32768"
proof -
  have "x mod 65536 mod 32768 = x mod 32768" by (rule mod_mod_cancel) simp
  then show ?thesis by (simp add: u16_def)
qed

lemma nb_fun: "nb B h = (\<lambda>i. UMM_NBLOCK B h i mod 32768)"
  by (simp add: fun_eq_iff nb_eq)

lemma is_free_fun: "is_free B h = (\<lambda>i. 32768 \<le> UMM_NBLOCK B h i)"
  by (simp add: fun_eq_iff is_free_eq)

lemma nb_set_NBLOCK: "8 \<le> B \<Longrightarrow> nb B (set_NBLOCK B b v h) = (nb B h)(b := v mod 32768)"
  by (simp add: nb_fun NBLOCK_set_NBLOCK fun_eq_iff)

lemma is_free_set_NBLOCK:
  "8 \<le> B \<Longrightarrow> is_free B (set_NBLOCK B b v h) = (is_free B h)(b := 32768 \<le> u16 v)"
  by (simp add: is_free_fun NBLOCK_set_NBLOCK fun_eq_iff)

lemma nb_set_other:
  assumes "8 \<le> B"
  shows "nb B (set_PBLOCK B b v h) = nb B h" "nb B (set_NFREE B b v h) = nb B h"
    "nb B (set_PFREE B b v h) = nb B h"
  using assms by (simp_all add: nb_fun field_simps16)

lemma is_free_set_other:
  assumes "8 \<le> B"
  shows "is_free B (set_PBLOCK B b v h) = is_free B h" "is_free B (set_NFREE B b v h) = is_free B h"
    "is_free B (set_PFREE B b v h) = is_free B h"
  using assms by (simp_all add: is_free_fun field_simps16)

lemmas view_simps = field_simps16 nb_set_NBLOCK is_free_set_NBLOCK nb_set_other is_free_set_other

lemma disconnect_effect:
  assumes "8 \<le> B"
  shows "UMM_NFREE B (umm_disconnect_from_free_list B c h) =
           (UMM_NFREE B h)(UMM_PFREE B h c := UMM_NFREE B h c)"
    and "UMM_PFREE B (umm_disconnect_from_free_list B c h) =
           (UMM_PFREE B h)(UMM_NFREE B h c := UMM_PFREE B h c)"
    and "UMM_PBLOCK B (umm_disconnect_from_free_list B c h) = UMM_PBLOCK B h"
    and "nb B (umm_disconnect_from_free_list B c h) = nb B h"
    and "is_free B (umm_disconnect_from_free_list B c h) = (is_free B h)(c := False)"
    and "numblocks (umm_disconnect_from_free_list B c h) = numblocks h"
  using assms
  by (simp_all add: umm_disconnect_from_free_list_def Let_def view_simps mask_not_free
      fun_eq_iff nb_eq)

lemma valid_disconnect:
  assumes B: "8 \<le> B" and v: "valid B h S fl" and c: "c \<in> set fl"
  shows "\<exists>fl'. valid B (umm_disconnect_from_free_list B c h) S fl' \<and> set fl' = set fl - {c}"
proof -
  from c obtain xs ys where fl: "fl = xs @ c # ys" by (meson split_list)
  from v have d: "distinct fl" by (simp add: valid_def heap_inv_def)
  from v have "valid B (umm_disconnect_from_free_list B c h) S (xs @ ys)"
    unfolding valid_def fl disconnect_effect [OF B] by (rule heap_inv_disconnect)
  moreover from d have "set (xs @ ys) = set fl - {c}" unfolding fl by auto
  ultimately show ?thesis by blast
qed

lemma valid_parts:
  assumes "valid B h S fl"
  shows "chain_ok (numblocks h) (nb B h) (UMM_PBLOCK B h) S"
    and "flags_ok (numblocks h) (nb B h) (is_free B h) S fl"
    and "dll (UMM_NFREE B h) (UMM_PFREE B h) 0 fl"
    and "distinct fl"
  using assms by (simp_all add: valid_def heap_inv_def)

lemma valid_lt:
  assumes "valid B h S fl" "i \<in> S"
  shows "i < numblocks h" "i < 32767" "numblocks h \<le> 32767"
  using chain_ok_lt [OF valid_parts(1) [OF assms(1)] assms(2)]
    chain_ok_bounds(2) [OF valid_parts(1) [OF assms(1)]] by simp_all

lemma valid_next:
  assumes "valid B h S fl" "i \<in> S" "i \<noteq> numblocks h - 1"
  shows "nb B h i \<in> S" "i < nb B h i" "UMM_PBLOCK B h (nb B h i) = i"
  using chain_ok_next [OF valid_parts(1) [OF assms(1)] assms(2,3)] .

lemma valid_pred:
  assumes "valid B h S fl" "i \<in> S" "i \<noteq> 0"
  shows "UMM_PBLOCK B h i \<in> S" "UMM_PBLOCK B h i < i" "nb B h (UMM_PBLOCK B h i) = i"
    "UMM_PBLOCK B h i \<noteq> numblocks h - 1"
  using chain_ok_pred [OF valid_parts(1) [OF assms(1)] assms(2,3)]
    chain_ok_pred_ne_last [OF valid_parts(1) [OF assms(1)] assms(2,3)] .

lemma valid_free:
  assumes "valid B h S fl"
  shows "i \<in> set fl \<longleftrightarrow> i \<in> S \<and> is_free B h i"
    and "\<not> is_free B h 0" and "\<not> is_free B h (numblocks h - 1)"
    and "i \<in> S \<Longrightarrow> is_free B h i \<Longrightarrow> \<not> is_free B h (nb B h i)"
  using flags_okD [OF valid_parts(2) [OF assms]] by auto

lemma valid_free_pred:
  assumes v: "valid B h S fl" and i: "i \<in> S" "i \<noteq> 0" "is_free B h i"
  shows "\<not> is_free B h (UMM_PBLOCK B h i)"
proof
  assume "is_free B h (UMM_PBLOCK B h i)"
  with valid_free(4) [OF v valid_pred(1) [OF v i(1,2)]] valid_pred(3) [OF v i(1,2)] i(3)
  show False by simp
qed

lemma or_mask_mod:
  assumes "n < 32768"
  shows "(n OR UMM_FREELIST_MASK) mod 32768 = n" "(n OR 0) mod 32768 = n"
    "32768 \<le> u16 (n OR UMM_FREELIST_MASK)" "\<not> 32768 \<le> u16 (n OR 0)"
  using assms by (simp_all add: or_free u16_def)

lemma assimilate_up_alt:
  "umm_assimilate_up B c h =
     (if is_free B h (UMM_NBLOCK B h c) then
        let h1 = umm_disconnect_from_free_list B (UMM_NBLOCK B h c) h;
            h2 = set_PBLOCK B (nb B h1 (UMM_NBLOCK B h1 c)) c h1
        in set_NBLOCK B c (nb B h2 (UMM_NBLOCK B h2 c)) h2
      else h)"
  by (simp add: umm_assimilate_up_def is_free_def nb_def)

text \<open>\<^verbatim>\<open>umm_assimilate_up\<close> next to a used block leaves the heap alone.\<close>

lemma assimilate_up_used:
  assumes "\<not> is_free B h c" "\<not> is_free B h (nb B h c)"
  shows "umm_assimilate_up B c h = h"
  using assms(2) unfolding nb_used [OF assms(1), symmetric]
  by (simp add: umm_assimilate_up_def is_free_def)

text \<open>\<^verbatim>\<open>umm_assimilate_up\<close> next to a free block.\<close>

lemma assimilate_up_free:
  assumes B: "8 \<le> B" and v: "valid B h S fl"
    and c: "c \<in> S" "c \<noteq> numblocks h - 1" "\<not> is_free B h c" "is_free B h (nb B h c)"
  defines "h' \<equiv> umm_assimilate_up B c h"
  shows "\<exists>fl'. valid B h' (S - {nb B h c}) fl'"
    and "nb B h' = (nb B h)(c := nb B h (nb B h c))"
    and "is_free B h' = (is_free B h)(nb B h c := False)"
    and "UMM_PBLOCK B h' = (UMM_PBLOCK B h)(nb B h (nb B h c) := c)"
    and "numblocks h' = numblocks h"
proof -
  define n where "n = nb B h c"
  define h1 where "h1 = umm_disconnect_from_free_list B n h"
  note sc = valid_next [OF v c(1,2), folded n_def]
  have raw: "UMM_NBLOCK B h c = n" using nb_used [OF c(3)] by (simp add: n_def)
  have nfree: "is_free B h n" using c(4) by (simp add: n_def)
  have nfl: "n \<in> set fl" using valid_free(1) [OF v] sc(1) nfree by simp
  have nlast: "n \<noteq> numblocks h - 1" using valid_free(3) [OF v] nfree by auto
  note sn = valid_next [OF v sc(1) nlast]
  note e1 = disconnect_effect [OF B, of n h, folded h1_def]
  have raw1: "UMM_NBLOCK B h1 c = n"
    using nb_used [of B h1 c] c(3) sc(2) by (simp add: e1 n_def)
  have clt: "c < 32768" using valid_lt(2) [OF v c(1)] by simp
  have nnlt: "nb B h n < 32768" by (rule nb_lt)
  have h': "h' = set_NBLOCK B c (nb B h n) (set_PBLOCK B (nb B h n) c h1)"
    using nfree B
    by (simp add: h'_def assimilate_up_alt raw h1_def [symmetric] Let_def raw1 e1 view_simps)
  show nbe: "nb B h' = (nb B h)(c := nb B h (nb B h c))"
    using B nnlt by (simp add: h' view_simps e1 n_def)
  show fre: "is_free B h' = (is_free B h)(nb B h c := False)"
    using B nnlt c(3) by (auto simp: h' view_simps e1 n_def u16_id fun_eq_iff)
  show pbe: "UMM_PBLOCK B h' = (UMM_PBLOCK B h)(nb B h (nb B h c) := c)"
    using B clt by (simp add: h' view_simps e1 n_def u16_id)
  show nume: "numblocks h' = numblocks h"
    by (simp add: h' e1)
  from valid_disconnect [OF B v nfl] obtain fl1 where
    v1: "valid B h1 S fl1" by (auto simp: h1_def)
  have "heap_inv (numblocks h1) ((nb B h1)(UMM_PBLOCK B h1 n := nb B h1 n)) (is_free B h1)
          ((UMM_PBLOCK B h1)(nb B h1 n := UMM_PBLOCK B h1 n)) (UMM_NFREE B h1) (UMM_PFREE B h1)
          (S - {n}) fl1"
  proof (rule heap_inv_merge)
    show "heap_inv (numblocks h1) (nb B h1) (is_free B h1) (UMM_PBLOCK B h1) (UMM_NFREE B h1)
            (UMM_PFREE B h1) S fl1" using v1 by (simp add: valid_def)
    show "n \<in> S" by (rule sc(1))
    show "n \<noteq> 0" using sc(2) by simp
    show "n \<noteq> numblocks h1 - 1" using nlast by (simp add: e1)
    show "\<not> is_free B h1 n" by (simp add: e1)
    show "is_free B h1 (UMM_PBLOCK B h1 n) \<longrightarrow> \<not> is_free B h1 (nb B h1 n)"
      using sc(3) c(3) sc(2) by (simp add: e1)
  qed
  moreover have "UMM_NFREE B h' = UMM_NFREE B h1" "UMM_PFREE B h' = UMM_PFREE B h1"
    using B by (simp_all add: h' view_simps)
  moreover have "is_free B h' = is_free B h1" using fre by (simp add: e1 n_def)
  ultimately have "valid B h' (S - {n}) fl1"
    unfolding valid_def nbe pbe nume using sc(3) by (simp add: e1 n_def)
  then show "\<exists>fl'. valid B h' (S - {nb B h c}) fl'" unfolding n_def by blast
qed

text \<open>\<^verbatim>\<open>umm_assimilate_down\<close> of a used block into its predecessor.\<close>

lemma assimilate_down_effect:
  assumes B: "8 \<le> B" and v: "valid B h S fl"
    and c: "c \<in> S" "c \<noteq> 0" "c \<noteq> numblocks h - 1" "\<not> is_free B h c"
    and m: "m = 0 \<or> m = UMM_FREELIST_MASK"
  defines "r \<equiv> umm_assimilate_down B c m h"
  shows "snd r = UMM_PBLOCK B h c"
    and "nb B (fst r) = (nb B h)(UMM_PBLOCK B h c := nb B h c)"
    and "is_free B (fst r) = (is_free B h)(UMM_PBLOCK B h c := (m = UMM_FREELIST_MASK))"
    and "UMM_PBLOCK B (fst r) = (UMM_PBLOCK B h)(nb B h c := UMM_PBLOCK B h c)"
    and "UMM_NFREE B (fst r) = UMM_NFREE B h" and "UMM_PFREE B (fst r) = UMM_PFREE B h"
    and "numblocks (fst r) = numblocks h"
proof -
  define p where "p = UMM_PBLOCK B h c"
  define n where "n = nb B h c"
  note pr = valid_pred [OF v c(1,2), folded p_def]
  note sc = valid_next [OF v c(1,3), folded n_def]
  have raw: "UMM_NBLOCK B h c = n" using nb_used [OF c(4)] by (simp add: n_def)
  have nlt: "n < 32768" unfolding n_def by (rule nb_lt)
  have pc: "p \<noteq> c" "c \<noteq> n" using pr(2) sc(2) by simp_all
  have r: "fst r = set_PBLOCK B n p (set_NBLOCK B p (n OR m) h)" "snd r = p"
    using B pc by (simp_all add: r_def umm_assimilate_down_def Let_def raw p_def [symmetric] view_simps)
  show "snd r = UMM_PBLOCK B h c" using r(2) by (simp add: p_def)
  show "nb B (fst r) = (nb B h)(UMM_PBLOCK B h c := nb B h c)"
    using B m or_mask_mod [OF nlt] by (auto simp: r view_simps p_def n_def)
  show "is_free B (fst r) = (is_free B h)(UMM_PBLOCK B h c := (m = UMM_FREELIST_MASK))"
    using B m or_mask_mod [OF nlt] by (auto simp: r view_simps p_def n_def UMM_FREELIST_MASK_def)
  show "UMM_PBLOCK B (fst r) = (UMM_PBLOCK B h)(nb B h c := UMM_PBLOCK B h c)"
    using B by (simp add: r view_simps p_def n_def)
  show "UMM_NFREE B (fst r) = UMM_NFREE B h" "UMM_PFREE B (fst r) = UMM_PFREE B h"
    "numblocks (fst r) = numblocks h"
    using B by (simp_all add: r view_simps)
qed

lemma valid_assimilate_down:
  assumes B: "8 \<le> B" and v: "valid B h S fl"
    and c: "c \<in> S" "c \<noteq> 0" "c \<noteq> numblocks h - 1" "\<not> is_free B h c"
    and m: "m = 0 \<or> m = UMM_FREELIST_MASK"
    and p: "is_free B h (UMM_PBLOCK B h c) \<longleftrightarrow> m = UMM_FREELIST_MASK"
    and adj: "m = UMM_FREELIST_MASK \<longrightarrow> \<not> is_free B h (nb B h c)"
  shows "valid B (fst (umm_assimilate_down B c m h)) (S - {c}) fl"
proof -
  note e = assimilate_down_effect [OF B v c m]
  have "heap_inv (numblocks h) ((nb B h)(UMM_PBLOCK B h c := nb B h c)) (is_free B h)
          ((UMM_PBLOCK B h)(nb B h c := UMM_PBLOCK B h c)) (UMM_NFREE B h) (UMM_PFREE B h)
          (S - {c}) fl"
    using v c p adj unfolding valid_def by (intro heap_inv_merge) simp_all
  moreover have "(is_free B h)(UMM_PBLOCK B h c := (m = UMM_FREELIST_MASK)) = is_free B h"
    using p by (simp add: fun_eq_iff)
  ultimately show ?thesis unfolding valid_def e by simp
qed

lemma assimilate_up_summary:
  assumes B: "8 \<le> B" and v: "valid B h S fl"
    and c: "c \<in> S" "c \<noteq> numblocks h - 1" "\<not> is_free B h c"
  defines "h' \<equiv> umm_assimilate_up B c h"
  defines "n \<equiv> nb B h c"
  defines "S' \<equiv> (if is_free B h n then S - {n} else S)"
  shows "\<exists>fl'. valid B h' S' fl'"
    and "nb B h' = (nb B h)(c := (if is_free B h n then nb B h n else n))"
    and "is_free B h' = (is_free B h)(n := False)"
    and "\<forall>i\<in>S'. UMM_PBLOCK B h' i = (if i = nb B h' c then c else UMM_PBLOCK B h i)"
    and "numblocks h' = numblocks h"
    and "c \<in> S'" and "\<not> is_free B h' (nb B h' c)"
proof -
  note sc = valid_next [OF v c(1,2), folded n_def]
  show "\<exists>fl'. valid B h' S' fl'"
    using assimilate_up_free(1) [OF B v c] assimilate_up_used [OF c(3)] v
    by (auto simp: h'_def S'_def n_def)
  show nbe: "nb B h' = (nb B h)(c := (if is_free B h n then nb B h n else n))"
    using assimilate_up_free(2) [OF B v c] assimilate_up_used [OF c(3)]
    by (auto simp: h'_def n_def)
  show fre: "is_free B h' = (is_free B h)(n := False)"
  proof (cases "is_free B h n")
    case True
    then show ?thesis using assimilate_up_free(3) [OF B v c] by (simp add: h'_def n_def)
  next
    case False
    then have "h' = h" using assimilate_up_used [OF c(3)] by (simp add: h'_def n_def)
    with False show ?thesis by (simp add: fun_eq_iff)
  qed
  show "\<forall>i\<in>S'. UMM_PBLOCK B h' i = (if i = nb B h' c then c else UMM_PBLOCK B h i)"
  proof (cases "is_free B h n")
    case True
    then have "nb B h' c = nb B h n" by (simp add: nbe)
    moreover have "UMM_PBLOCK B h' = (UMM_PBLOCK B h)(nb B h n := c)"
      using assimilate_up_free(4) [OF B v c] True by (simp add: h'_def n_def)
    ultimately show ?thesis by simp
  next
    case False
    then have "h' = h" using assimilate_up_used [OF c(3)] by (simp add: h'_def n_def)
    with False valid_next(3) [OF v c(1,2)] show ?thesis by (simp add: nbe n_def)
  qed
  show "numblocks h' = numblocks h"
    using assimilate_up_free(5) [OF B v c] assimilate_up_used [OF c(3)]
    by (cases "is_free B h (nb B h c)") (simp_all add: h'_def)
  show "c \<in> S'" using c(1) sc(2) by (simp add: S'_def)
  show "\<not> is_free B h' (nb B h' c)"
  proof (cases "is_free B h n")
    case True
    have "\<not> is_free B h (nb B h n)" using valid_free(4) [OF v sc(1) True] .
    moreover have nl: "n \<noteq> numblocks h - 1" using valid_free(3) [OF v] True by auto
    have "nb B h n \<noteq> n" using valid_next(2) [OF v sc(1) nl] by simp
    ultimately show ?thesis using True by (simp add: nbe fre)
  next
    case False
    then show ?thesis by (simp add: nbe fre)
  qed
qed

lemma data_div: "8 \<le> B \<Longrightarrow> UMM_DATA B c div B = c"
  by (simp add: UMM_DATA_def)

lemma free_core_alt:
  "umm_free_core B p h =
     (let c = u16 (p div B);
          h1 = umm_assimilate_up B c h
      in if is_free B h1 (UMM_PBLOCK B h1 c) then
           fst (umm_assimilate_down B c UMM_FREELIST_MASK h1)
         else
           let h2 = set_PFREE B (UMM_NFREE B h1 0) c h1;
               h3 = set_NFREE B c (UMM_NFREE B h2 0) h2;
               h4 = set_PFREE B c 0 h3;
               h5 = set_NFREE B 0 c h4
           in set_NBLOCK B c (UMM_NBLOCK B h5 c OR UMM_FREELIST_MASK) h5)"
  by (simp add: umm_free_core_def is_free_def)

text \<open>
  \<^verbatim>\<open>umm_free_core\<close> on the used block \<open>c\<close>: a free successor and the block itself under a
  free predecessor leave the chain; the free block that results starts at \<open>c'\<close>.
\<close>

lemma free_core_valid:
  assumes B: "8 \<le> B" and v: "valid B h S fl"
    and c: "c \<in> S" "c \<noteq> 0" "c \<noteq> numblocks h - 1" "\<not> is_free B h c"
  defines "h' \<equiv> umm_free_core B (UMM_DATA B c) h"
  defines "n \<equiv> nb B h c" and "p \<equiv> UMM_PBLOCK B h c"
  defines "S' \<equiv> S - (if is_free B h n then {n} else {}) - (if is_free B h p then {c} else {})"
  defines "c' \<equiv> (if is_free B h p then p else c)"
  shows "\<exists>fl'. valid B h' S' fl'"
    and "numblocks h' = numblocks h"
    and "c' \<in> S'" and "is_free B h' c'"
    and "nb B h' c' = (if is_free B h n then nb B h n else n)"
    and "\<forall>i\<in>S'. i \<noteq> c' \<longrightarrow> nb B h' i = nb B h i \<and> is_free B h' i = is_free B h i"
proof -
  define g where "g = umm_assimilate_up B c h"
  define T where "T = (if is_free B h n then S - {n} else S)"
  note up0 = assimilate_up_summary [OF B v c(1,3,4)]
  have up: "\<exists>fl'. valid B g T fl'"
    "nb B g = (nb B h)(c := (if is_free B h n then nb B h n else n))"
    "is_free B g = (is_free B h)(n := False)"
    "\<forall>i\<in>T. UMM_PBLOCK B g i = (if i = nb B g c then c else UMM_PBLOCK B h i)"
    "numblocks g = numblocks h"
    "c \<in> T" "\<not> is_free B g (nb B g c)"
    using up0 unfolding g_def T_def n_def by blast+
  from up(1) obtain gl where vg: "valid B g T gl" by blast
  note sc = valid_next [OF v c(1,3), folded n_def]
  note pr = valid_pred [OF v c(1,2), folded p_def]
  have clt: "c < 32768" using valid_lt(2) [OF v c(1)] by simp
  have cc: "u16 (UMM_DATA B c div B) = c" using B clt by (simp add: data_div u16_id)
  have pT: "p \<in> T" using pr(1,2) sc(2) by (auto simp: T_def)
  have pn: "p \<noteq> n" "p \<noteq> c" using pr(2) sc(2) by simp_all
  have cg: "c < nb B g c"
  proof (cases "is_free B h n")
    case True
    then have "n \<noteq> numblocks h - 1" using valid_free(3) [OF v] by auto
    from valid_next(2) [OF v sc(1) this] sc(2) True show ?thesis by (simp add: up(2))
  next
    case False
    with sc(2) show ?thesis by (simp add: up(2))
  qed
  have pbc: "UMM_PBLOCK B g c = p"
    using up(4) up(6) cg by (auto simp: p_def)
  have gfree: "is_free B g p = is_free B h p" "\<not> is_free B g c" using pn c(4) by (simp_all add: up(3))
  have gnum: "c \<noteq> numblocks g - 1" using c(3) by (simp add: up(5))
  have ST: "S' = (if is_free B h p then T - {c} else T)" by (auto simp: S'_def T_def)
  have main: "(\<exists>fl'. valid B h' S' fl') \<and> numblocks h' = numblocks h \<and> c' \<in> S' \<and> is_free B h' c' \<and>
        nb B h' c' = (if is_free B h n then nb B h n else n) \<and>
        (\<forall>i\<in>S'. i \<noteq> c' \<longrightarrow> nb B h' i = nb B h i \<and> is_free B h' i = is_free B h i)"
  proof (cases "is_free B h p")
    case True
    then have h': "h' = fst (umm_assimilate_down B c UMM_FREELIST_MASK g)"
      by (simp add: h'_def free_core_alt cc g_def [symmetric] Let_def pbc gfree)
    have m: "UMM_FREELIST_MASK = 0 \<or> UMM_FREELIST_MASK = UMM_FREELIST_MASK" by simp
    note e = assimilate_down_effect [OF B vg up(6) c(2) gnum gfree(2) m, folded h', unfolded pbc]
    have "valid B h' (T - {c}) gl"
      unfolding h' using B vg up(6) c(2) gnum gfree(2) m
      by (rule valid_assimilate_down) (simp_all add: pbc gfree True up(7))
    moreover have "\<forall>i\<in>T - {c}. i \<noteq> p \<longrightarrow> nb B h' i = nb B h i \<and> is_free B h' i = is_free B h i"
      using sc(1,2) by (auto simp: e up(2,3) T_def)
    ultimately show ?thesis
      using True pT pn by (auto simp: ST c'_def e up(2,3,5))
  next
    case False
    define nf0 where "nf0 = UMM_NFREE B g 0"
    have h': "h' = set_NBLOCK B c (UMM_NBLOCK B g c OR UMM_FREELIST_MASK)
                 (set_NFREE B 0 c (set_PFREE B c 0 (set_NFREE B c nf0 (set_PFREE B nf0 c g))))"
      using False B
      by (simp add: h'_def free_core_alt cc g_def [symmetric] Let_def pbc gfree view_simps nf0_def)
    have raw: "UMM_NBLOCK B g c = nb B g c" using nb_used [OF gfree(2)] .
    have nlt: "nb B g c < 32768" by (rule nb_lt)
    have e: "nb B h' = nb B g" "is_free B h' = (is_free B g)(c := True)"
      "UMM_PBLOCK B h' = UMM_PBLOCK B g"
      "UMM_NFREE B h' = (UMM_NFREE B g)(c := UMM_NFREE B g 0, 0 := c)"
      "UMM_PFREE B h' = (UMM_PFREE B g)(UMM_NFREE B g 0 := c, c := 0)"
      "numblocks h' = numblocks g"
      using B clt or_mask_mod [OF nlt]
      by (auto simp: h' view_simps raw u16_id nf0_def fun_eq_iff)
    have "heap_inv (numblocks g) (nb B g) ((is_free B g)(c := True)) (UMM_PBLOCK B g)
            ((UMM_NFREE B g)(c := UMM_NFREE B g 0, 0 := c))
            ((UMM_PFREE B g)(UMM_NFREE B g 0 := c, c := 0)) T (c # gl)"
      using vg up(6) c(2) gnum gfree(2) up(7) False unfolding valid_def
      by (intro heap_inv_insert_head) (simp_all add: pbc gfree)
    then have "valid B h' T (c # gl)" unfolding valid_def e .
    moreover have "\<forall>i\<in>T. i \<noteq> c \<longrightarrow> nb B h' i = nb B h i \<and> is_free B h' i = is_free B h i"
      by (auto simp: e up(2,3) T_def)
    ultimately show ?thesis
      using False up(6) by (auto simp: ST c'_def e up(2,3,5))
  qed
  from main show "\<exists>fl'. valid B h' S' fl'" "numblocks h' = numblocks h" "c' \<in> S'" "is_free B h' c'"
    "nb B h' c' = (if is_free B h n then nb B h n else n)"
    "\<forall>i\<in>S'. i \<noteq> c' \<longrightarrow> nb B h' i = nb B h i \<and> is_free B h' i = is_free B h i"
    by blast+
qed

lemma umm_blocks_closed:
  assumes "8 \<le> B"
  shows "umm_blocks B sz =
           (if sz \<le> B - 4 then 1 else min 32767 ((sz - (B - 4) - 1) div B + 2))"
proof (cases "sz \<le> B - 4")
  case True
  then show ?thesis by (simp add: umm_blocks_def)
next
  case False
  have "u16 (min 32767 ((sz - (B - 4) - 1) div B + 2)) = min 32767 ((sz - (B - 4) - 1) div B + 2)"
    by (simp add: u16_def)
  with False show ?thesis by (simp add: umm_blocks_def Let_def min_def u16_def)
qed

lemma umm_blocks_ge1: "8 \<le> B \<Longrightarrow> 1 \<le> umm_blocks B sz"
  by (simp add: umm_blocks_closed)

lemma umm_blocks_le: "8 \<le> B \<Longrightarrow> umm_blocks B sz \<le> 32767"
  by (simp add: umm_blocks_closed)

text \<open>
  C4 (as stated): \<open>blocks_for(size)\<close> is 1 up to \<open>B - 4\<close> bytes and otherwise
  \<open>size - (B - 4)\<close> divided by \<open>B\<close> rounding up, plus 2, clamped to \<^verbatim>\<open>INT16_MAX\<close>. The code
  differs from that wording already for 5 bytes and 8-byte blocks: the rounded-up quotient
  is 1, the wording gives 3 blocks, \<^verbatim>\<open>umm_blocks\<close> returns 2 (as the table in its
  comment says).
\<close>

theorem umm_blocks_spec_counterexample: "umm_blocks 8 5 = 2 \<and> blocks_for_spec 8 5 = 3"
  by (simp add: umm_blocks_def blocks_for_spec_def u16_def)

text \<open>
  C4 (amended): \<open>blocks_for(size)\<close> is 1 up to \<open>B - 4\<close> bytes and otherwise
  \<open>size - (B - 4)\<close> divided by \<open>B\<close> rounding up, plus 1 (which is the quotient rounded down
  of one byte less, plus 2), clamped to \<^verbatim>\<open>INT16_MAX\<close>.
\<close>

theorem umm_blocks_rounding_up:
  assumes "8 \<le> B"
  shows "umm_blocks B sz =
           (if sz \<le> B - 4 then 1 else min 32767 ((sz - (B - 4) + B - 1) div B + 1))"
proof (cases "sz \<le> B - 4")
  case True
  then show ?thesis by (simp add: umm_blocks_def)
next
  case False
  define x where "x = sz - (B - 4) - 1"
  from False have "sz - (B - 4) + B - 1 = x + B" by (simp add: x_def)
  moreover from assms have "(x + B) div B = x div B + 1"
    using div_add_self2 [of B x] by simp
  ultimately have "(sz - (B - 4) + B - 1) div B + 1 = (sz - (B - 4) - 1) div B + 2"
    by (simp add: x_def)
  with False assms show ?thesis by (simp add: umm_blocks_closed)
qed

theorem umm_blocks_rounding_up_witness:
  "(8::nat) \<le> 8 \<and> umm_blocks 8 13 = 3 \<and> umm_blocks 8 4 = 1 \<and> umm_blocks 8 1000000 = 32767"
  using umm_blocks_rounding_up [of 8 13] umm_blocks_rounding_up [of 8 4]
    umm_blocks_rounding_up [of 8 1000000]
  by simp

subsection \<open>Splitting\<close>

lemma split_effect:
  fixes h :: heap
  assumes B: "8 \<le> B" and k: "0 < k" "c + k < 32768" and m: "m = 0 \<or> m = UMM_FREELIST_MASK"
  defines "h' \<equiv> umm_split_block B c k m h"
  shows "nb B h' = (nb B h)(c + k := nb B h c, c := c + k)"
    and "is_free B h' = (is_free B h)(c + k := (m = UMM_FREELIST_MASK), c := False)"
    and "UMM_PBLOCK B h' = (UMM_PBLOCK B h)(c + k := c, nb B h c := c + k)"
    and "UMM_NFREE B h' = UMM_NFREE B h" and "UMM_PFREE B h' = UMM_PFREE B h"
    and "numblocks h' = numblocks h"
proof -
  define n where "n = nb B h c"
  have nlt: "n < 32768" unfolding n_def by (rule nb_lt)
  have h': "h' = set_NBLOCK B c (c + k) (set_PBLOCK B n (c + k) (set_PBLOCK B (c + k) c
                   (set_NBLOCK B (c + k) (n OR m) h)))"
    using B k(1)
    by (simp add: h'_def umm_split_block_def Let_def nb_def [symmetric] view_simps n_def)
  have u: "u16 (c + k) = c + k" "u16 c = c" using k by (simp_all add: u16_id)
  show "nb B h' = (nb B h)(c + k := nb B h c, c := c + k)"
    using B m k or_mask_mod [OF nlt] by (auto simp: h' view_simps n_def)
  show "is_free B h' = (is_free B h)(c + k := (m = UMM_FREELIST_MASK), c := False)"
    using B m k or_mask_mod [OF nlt] by (auto simp: h' view_simps n_def u UMM_FREELIST_MASK_def)
  show "UMM_PBLOCK B h' = (UMM_PBLOCK B h)(c + k := c, nb B h c := c + k)"
    using B by (simp add: h' view_simps n_def u)
  show "UMM_NFREE B h' = UMM_NFREE B h" "UMM_PFREE B h' = UMM_PFREE B h" "numblocks h' = numblocks h"
    using B by (simp_all add: h' view_simps)
qed

lemma valid_split_used:
  assumes B: "8 \<le> B" and v: "valid B h S fl"
    and c: "c \<in> S" "c \<noteq> numblocks h - 1" "\<not> is_free B h c" and k: "0 < k" "c + k < nb B h c"
  shows "valid B (umm_split_block B c k 0 h) (insert (c + k) S) fl"
proof -
  have "c + k < 32768" using k(2) nb_lt [of B h c] by simp
  moreover have "(0::nat) = 0 \<or> 0 = UMM_FREELIST_MASK" by simp
  ultimately have e: "nb B (umm_split_block B c k 0 h) = (nb B h)(c + k := nb B h c, c := c + k)"
    "is_free B (umm_split_block B c k 0 h) = (is_free B h)(c + k := (0 = UMM_FREELIST_MASK), c := False)"
    "UMM_PBLOCK B (umm_split_block B c k 0 h) = (UMM_PBLOCK B h)(c + k := c, nb B h c := c + k)"
    "UMM_NFREE B (umm_split_block B c k 0 h) = UMM_NFREE B h"
    "UMM_PFREE B (umm_split_block B c k 0 h) = UMM_PFREE B h"
    "numblocks (umm_split_block B c k 0 h) = numblocks h"
    using split_effect [OF B k(1), of c 0 h] by blast+
  have z: "(0 = UMM_FREELIST_MASK) = False" by (simp add: UMM_FREELIST_MASK_def)
  have i: "(is_free B h)(c + k := False, c := False) = (is_free B h)(c + k := False)"
    using c(3) by (simp add: fun_eq_iff)
  show ?thesis
    unfolding valid_def e z i using v c k unfolding valid_def by (intro heap_inv_split_used) simp_all
qed

subsection \<open>The scan of the free list\<close>

lemma sub16_diff: "b \<le> a \<Longrightarrow> a < 65536 \<Longrightarrow> sub16 a b = a - b"
proof -
  assume a: "b \<le> a" "a < 65536"
  then have e: "a + 65536 - b = (a - b) + 65536" by simp
  have "(a - b + 65536) mod 65536 = (a - b) mod 65536" by (rule mod_add_self2)
  also have "\<dots> = a - b" using a by (intro mod_less) simp
  finally show ?thesis unfolding sub16_def e .
qed

lemma scan_free_result:
  assumes "dll (UMM_NFREE B h) pf p xs" "0 \<notin> set xs" "set xs \<subseteq> F"
    and "\<forall>x\<in>F. sub16 (nb B h x) x < 32767"
    and "(bestSize = 32767 \<and> blockSize < blocks) \<or>
         (bestSize < 32767 \<and> bestBlock \<in> F \<and> sub16 (nb B h bestBlock) bestBlock = bestSize \<and>
          blocks \<le> bestSize)"
  shows "\<exists>cf0 bs0 bb bsz.
           scan_free B policy h blocks (UMM_NFREE B h p) blockSize bestBlock bestSize
             = Some (cf0, bs0, bb, bsz) \<and>
           (let cf = (if 32767 \<noteq> bsz then bb else cf0);
                bs = (if 32767 \<noteq> bsz then bsz else bs0)
            in (cf \<in> F \<and> bs = sub16 (nb B h cf) cf \<and> blocks \<le> bs) \<or>
               (bs < blocks \<and> bestSize = 32767 \<and> (\<forall>x\<in>set xs. sub16 (nb B h x) x < blocks)))"
proof -
  define ok where "ok = (\<lambda>cf0 bs0 bb bsz.
     (if 32767 \<noteq> (bsz::nat) then bb else cf0) \<in> F \<and>
     (if 32767 \<noteq> bsz then bsz else bs0) =
        sub16 (nb B h (if 32767 \<noteq> bsz then bb else cf0)) (if 32767 \<noteq> bsz then bb else cf0) \<and>
     blocks \<le> (if 32767 \<noteq> bsz then bsz else bs0))"
  define ko where "ko = (\<lambda>xs (bs0::nat) (bsz::nat).
     (if 32767 \<noteq> bsz then bsz else bs0) < blocks \<and> (\<forall>x\<in>set xs. sub16 (nb B h x) x < blocks))"
  have "\<exists>cf0 bs0 bb bsz.
           scan_free B policy h blocks (UMM_NFREE B h p) blockSize bestBlock bestSize
             = Some (cf0, bs0, bb, bsz) \<and>
           (ok cf0 bs0 bb bsz \<or> ko xs bs0 bsz \<and> bestSize = 32767)"
    using assms
  proof (induction xs arbitrary: p blockSize bestBlock bestSize)
    case Nil
    then have "UMM_NFREE B h p = 0" by simp
    then have "scan_free B policy h blocks (UMM_NFREE B h p) blockSize bestBlock bestSize
                 = Some (0, blockSize, bestBlock, bestSize)"
      by (subst scan_free.simps) simp
    moreover have "ok 0 blockSize bestBlock bestSize \<or> ko [] blockSize bestSize \<and> bestSize = 32767"
      using Nil.prems(5) by (auto simp: ok_def ko_def)
    ultimately show ?case by blast
  next
    case (Cons x r)
    then have x: "UMM_NFREE B h p = x" "x \<noteq> 0" "x \<in> F" and rest: "dll (UMM_NFREE B h) pf x r"
      by auto
    define s where "s = sub16 (nb B h x) x"
    have slt: "s < 32767" using Cons.prems(4) x(3) by (simp add: s_def)
    have r: "0 \<notin> set r" "set r \<subseteq> F" using Cons.prems by auto
    have ko_step: "ko (x # r) bs0 bsz" if "ko r bs0 bsz" "s < blocks" for bs0 bsz
      using that by (simp add: ko_def s_def)
    show ?case
    proof (cases "policy = UMM_FIRST_FIT \<and> blocks \<le> s")
      case True
      have "scan_free B policy h blocks (UMM_NFREE B h p) blockSize bestBlock bestSize
              = Some (x, s, bestBlock, bestSize)"
        using x True
        by (subst scan_free.simps) (simp add: nb_def [symmetric] s_def Let_def)
      moreover have "ok x s bestBlock bestSize"
        using Cons.prems(5) x(3) True by (auto simp: ok_def s_def)
      ultimately show ?thesis by blast
    next
      case nobreak: False
      show ?thesis
      proof (cases "policy = UMM_BEST_FIT \<and> blocks \<le> s \<and> s < bestSize")
        case True
        have step: "scan_free B policy h blocks (UMM_NFREE B h p) blockSize bestBlock bestSize
                = scan_free B policy h blocks (UMM_NFREE B h x) s x s"
          using x True
          by (subst scan_free.simps) (simp add: nb_def [symmetric] s_def Let_def)
        have "(s = 32767 \<and> s < blocks) \<or>
           (s < 32767 \<and> x \<in> F \<and> sub16 (nb B h x) x = s \<and> blocks \<le> s)"
          using slt x(3) True by (simp add: s_def)
        from Cons.IH [OF rest r Cons.prems(4) this] obtain cf0 bs0 bb bsz where
          res: "scan_free B policy h blocks (UMM_NFREE B h x) s x s = Some (cf0, bs0, bb, bsz)"
          and "ok cf0 bs0 bb bsz \<or> ko r bs0 bsz \<and> s = 32767" by blast
        with slt have "ok cf0 bs0 bb bsz" by auto
        with res show ?thesis unfolding step by blast
      next
        case False
        have step: "scan_free B policy h blocks (UMM_NFREE B h p) blockSize bestBlock bestSize
                = scan_free B policy h blocks (UMM_NFREE B h x) s bestBlock bestSize"
          using x False nobreak
          by (subst scan_free.simps) (cases policy; auto simp: nb_def [symmetric] s_def Let_def)
        have nofit: "bestSize = 32767 \<Longrightarrow> s < blocks"
          using False nobreak slt by (cases policy) auto
        have J: "(bestSize = 32767 \<and> s < blocks) \<or>
           (bestSize < 32767 \<and> bestBlock \<in> F \<and> sub16 (nb B h bestBlock) bestBlock = bestSize \<and>
            blocks \<le> bestSize)"
          using Cons.prems(5) nofit by auto
        from Cons.IH [OF rest r Cons.prems(4) J] obtain cf0 bs0 bb bsz where
          res: "scan_free B policy h blocks (UMM_NFREE B h x) s bestBlock bestSize
                  = Some (cf0, bs0, bb, bsz)"
          and "ok cf0 bs0 bb bsz \<or> ko r bs0 bsz \<and> bestSize = 32767" by blast
        with nofit ko_step have "ok cf0 bs0 bb bsz \<or> ko (x # r) bs0 bsz \<and> bestSize = 32767"
          by blast
        with res show ?thesis unfolding step by blast
      qed
    qed
  qed
  then show ?thesis unfolding ok_def ko_def Let_def by blast
qed

subsection \<open>Allocation\<close>

lemma valid_free_size:
  assumes v: "valid B h S fl" and x: "x \<in> set fl"
  shows "x \<in> S" "is_free B h x" "x \<noteq> 0" "x \<noteq> numblocks h - 1" "x < nb B h x"
    "sub16 (nb B h x) x = nb B h x - x" "nb B h x - x < 32767" "nb B h x \<noteq> 0"
proof -
  from valid_free(1) [OF v] x show x': "x \<in> S" "is_free B h x" by simp_all
  from x'(2) valid_free(2) [OF v] have "x \<noteq> 0" by (intro notI) simp
  moreover from x'(2) valid_free(3) [OF v] have "x \<noteq> numblocks h - 1" by (intro notI) simp
  ultimately show x0: "x \<noteq> 0" "x \<noteq> numblocks h - 1" .
  from valid_next(2) [OF v x'(1) x0(2)] show lt: "x < nb B h x" .
  have "nb B h x < 32768" by (rule nb_lt)
  with lt show "sub16 (nb B h x) x = nb B h x - x" by (intro sub16_diff) simp_all
  from valid_lt(2) [OF v valid_next(1) [OF v x'(1) x0(2)]] show "nb B h x - x < 32767" by simp
  from lt show "nb B h x \<noteq> 0" by simp
qed

lemma valid_pfree_ne:
  assumes v: "valid B h S fl" and x: "x \<in> set fl"
  shows "UMM_PFREE B h x \<noteq> x"
proof -
  from x obtain xs ys where fl: "fl = xs @ x # ys" by (meson split_list)
  note p = valid_parts [OF v]
  from p(3) have "UMM_PFREE B h x = last (0 # xs)" unfolding fl by (rule dll_pf_mid)
  moreover have "last (0 # xs) \<in> set (0 # xs)" by (rule last_in_set) simp
  moreover have "x \<notin> set (0 # xs)" using p(4) valid_free_size(3) [OF v x] unfolding fl by auto
  ultimately show ?thesis by metis
qed

text \<open>The branch of \<^verbatim>\<open>umm_malloc_core\<close> that splits the free block \<open>cf\<close>.\<close>

lemma malloc_split_valid:
  assumes B: "8 \<le> B" and v: "valid B h S fl" and cf: "cf \<in> set fl"
    and k: "0 < k" "k < nb B h cf - cf"
  defines "d \<equiv> cf + k"
  defines "h1 \<equiv> umm_split_block B cf k UMM_FREELIST_MASK h"
  defines "h2 \<equiv> set_NFREE B (UMM_PFREE B h1 cf) d h1"
  defines "h3 \<equiv> set_PFREE B d (UMM_PFREE B h2 cf) h2"
  defines "h4 \<equiv> set_PFREE B (UMM_NFREE B h3 cf) d h3"
  defines "h5 \<equiv> set_NFREE B d (UMM_NFREE B h4 cf) h4"
  shows "\<exists>fl'. valid B h5 (insert d S) fl'"
    and "nb B h5 = (nb B h)(d := nb B h cf, cf := d)"
    and "is_free B h5 = (is_free B h)(d := True, cf := False)"
    and "numblocks h5 = numblocks h"
proof -
  note f = valid_free_size [OF v cf]
  have dlt: "d < nb B h cf" using k by (simp add: d_def)
  then have d32: "cf + k < 32768" using nb_lt [of B h cf] by (simp add: d_def)
  have m: "UMM_FREELIST_MASK = 0 \<or> UMM_FREELIST_MASK = UMM_FREELIST_MASK" by simp
  note e1 = split_effect [OF B k(1) d32 m, of h, folded h1_def d_def]
  have pne: "UMM_PFREE B h cf \<noteq> cf" using v cf by (rule valid_pfree_ne)
  have ud: "u16 d = d" using d32 by (simp add: u16_id d_def)
  have nf5: "UMM_NFREE B h5 = (UMM_NFREE B h)(UMM_PFREE B h cf := d, d := UMM_NFREE B h cf)"
    using B pne by (simp add: h5_def h4_def h3_def h2_def view_simps e1 ud)
  have pf5: "UMM_PFREE B h5 = (UMM_PFREE B h)(d := UMM_PFREE B h cf, UMM_NFREE B h cf := d)"
    using B pne by (simp add: h5_def h4_def h3_def h2_def view_simps e1 ud)
  have pb5: "UMM_PBLOCK B h5 = (UMM_PBLOCK B h)(d := cf, nb B h cf := d)"
    using B by (simp add: h5_def h4_def h3_def h2_def view_simps e1)
  show nb5: "nb B h5 = (nb B h)(d := nb B h cf, cf := d)"
    using B by (simp add: h5_def h4_def h3_def h2_def view_simps e1)
  show fr5: "is_free B h5 = (is_free B h)(d := True, cf := False)"
    using B by (simp add: h5_def h4_def h3_def h2_def view_simps e1)
  show num5: "numblocks h5 = numblocks h"
    by (simp add: h5_def h4_def h3_def h2_def e1)
  from cf obtain xs ys where fl: "fl = xs @ cf # ys" by (meson split_list)
  have "valid B h5 (insert d S) (xs @ d # ys)"
    unfolding valid_def nf5 pf5 pb5 nb5 fr5 num5
    using v k(1) dlt unfolding valid_def fl d_def by (intro heap_inv_split_free) simp_all
  then show "\<exists>fl'. valid B h5 (insert d S) fl'" by blast
qed

lemma malloc_core_alt:
  "umm_malloc_core B policy sz h =
     (let blocks = umm_blocks B sz
      in case scan_free B policy h blocks (UMM_NFREE B h 0) 0 (UMM_NFREE B h 0) 32767 of
           None \<Rightarrow> None
         | Some (cf0, blockSize0, bestBlock, bestSize) \<Rightarrow>
             let cf = (if 32767 \<noteq> bestSize then bestBlock else cf0);
                 blockSize = (if 32767 \<noteq> bestSize then bestSize else blockSize0)
             in if nb B h cf \<noteq> 0 \<and> blockSize \<ge> blocks then
                  if blockSize = blocks then
                    Some (umm_disconnect_from_free_list B cf h, Some (UMM_DATA B cf))
                  else
                    let h1 = umm_split_block B cf blocks UMM_FREELIST_MASK h;
                        h2 = set_NFREE B (UMM_PFREE B h1 cf) (cf + blocks) h1;
                        h3 = set_PFREE B (cf + blocks) (UMM_PFREE B h2 cf) h2;
                        h4 = set_PFREE B (UMM_NFREE B h3 cf) (cf + blocks) h3;
                        h5 = set_NFREE B (cf + blocks) (UMM_NFREE B h4 cf) h4
                    in Some (h5, Some (UMM_DATA B cf))
                else Some (h, None))"
  unfolding umm_malloc_core_def nb_def by (rule refl)

text \<open>
  \<^verbatim>\<open>umm_malloc_core\<close> on a valid heap returns. It fails, leaving the heap as it was, when no
  free block has \<open>k = umm_blocks B sz\<close> blocks; otherwise it hands out the first \<open>k\<close> blocks
  of a free block \<open>cf\<close> that has them.
\<close>

lemma malloc_core_valid:
  fixes sz :: nat and policy :: fit
  assumes B: "8 \<le> B" and v: "valid B h S fl"
  defines "k \<equiv> umm_blocks B sz"
  shows "\<exists>h' r. umm_malloc_core B policy sz h = Some (h', r) \<and> numblocks h' = numblocks h \<and>
     (case r of
        None \<Rightarrow> h' = h \<and> (\<forall>x\<in>set fl. nb B h x - x < k)
      | Some a \<Rightarrow> (\<exists>cf\<in>set fl. a = UMM_DATA B cf \<and> k \<le> nb B h cf - cf \<and>
           (if nb B h cf - cf = k
            then (\<exists>fl'. valid B h' S fl') \<and> nb B h' = nb B h \<and>
                 is_free B h' = (is_free B h)(cf := False)
            else (\<exists>fl'. valid B h' (insert (cf + k) S) fl') \<and>
                 nb B h' = (nb B h)(cf + k := nb B h cf, cf := cf + k) \<and>
                 is_free B h' = (is_free B h)(cf + k := True, cf := False))))"
proof -
  note p = valid_parts [OF v]
  have k1: "1 \<le> k" unfolding k_def using B by (rule umm_blocks_ge1)
  have z: "0 \<notin> set fl" using valid_free_size(3) [OF v] by blast
  have szs: "\<forall>x\<in>set fl. sub16 (nb B h x) x < 32767"
    using valid_free_size(6,7) [OF v] by simp
  have J: "(32767 = (32767::nat) \<and> 0 < k) \<or>
         ((32767::nat) < 32767 \<and> UMM_NFREE B h 0 \<in> set fl \<and>
          sub16 (nb B h (UMM_NFREE B h 0)) (UMM_NFREE B h 0) = 32767 \<and> k \<le> 32767)"
    using k1 by simp
  from scan_free_result [OF p(3) z subset_refl szs J, of policy]
  obtain cf0 bs0 bb bsz where
    res: "scan_free B policy h k (UMM_NFREE B h 0) 0 (UMM_NFREE B h 0) 32767 = Some (cf0, bs0, bb, bsz)"
    and post: "(let cf = (if 32767 \<noteq> bsz then bb else cf0);
                bs = (if 32767 \<noteq> bsz then bsz else bs0)
            in (cf \<in> set fl \<and> bs = sub16 (nb B h cf) cf \<and> k \<le> bs) \<or>
               (bs < k \<and> (32767::nat) = 32767 \<and> (\<forall>x\<in>set fl. sub16 (nb B h x) x < k)))"
    by blast
  define cf where "cf = (if 32767 \<noteq> bsz then bb else cf0)"
  define bs where "bs = (if 32767 \<noteq> bsz then bsz else bs0)"
  from post have post': "(cf \<in> set fl \<and> bs = sub16 (nb B h cf) cf \<and> k \<le> bs) \<or>
               (bs < k \<and> (\<forall>x\<in>set fl. sub16 (nb B h x) x < k))"
    by (simp add: cf_def bs_def Let_def)
  define h1 where "h1 = umm_split_block B cf k UMM_FREELIST_MASK h"
  define h2 where "h2 = set_NFREE B (UMM_PFREE B h1 cf) (cf + k) h1"
  define h3 where "h3 = set_PFREE B (cf + k) (UMM_PFREE B h2 cf) h2"
  define h4 where "h4 = set_PFREE B (UMM_NFREE B h3 cf) (cf + k) h3"
  define h5 where "h5 = set_NFREE B (cf + k) (UMM_NFREE B h4 cf) h4"
  have core: "umm_malloc_core B policy sz h =
      (if nb B h cf \<noteq> 0 \<and> bs \<ge> k then
         if bs = k then Some (umm_disconnect_from_free_list B cf h, Some (UMM_DATA B cf))
         else Some (h5, Some (UMM_DATA B cf))
       else Some (h, None))"
    unfolding malloc_core_alt Let_def k_def [symmetric] res option.case prod.case
      h5_def h4_def h3_def h2_def h1_def cf_def bs_def by (rule refl)
  show ?thesis
  proof (cases "cf \<in> set fl \<and> bs = sub16 (nb B h cf) cf \<and> k \<le> bs")
    case True
    then have cfl: "cf \<in> set fl" and kb: "k \<le> bs" by simp_all
    note f = valid_free_size [OF v cfl]
    have bs: "bs = nb B h cf - cf" using True f(6) by simp
    show ?thesis
    proof (cases "bs = k")
      case exact: True
      have eq: "umm_malloc_core B policy sz h
              = Some (umm_disconnect_from_free_list B cf h, Some (UMM_DATA B cf))"
        using f(8) exact by (simp add: core)
      from valid_disconnect [OF B v cfl]
      have vd: "\<exists>fl'. valid B (umm_disconnect_from_free_list B cf h) S fl'" by blast
      note e = disconnect_effect(4-6) [OF B, of cf h]
      have "\<exists>cf'\<in>set fl. UMM_DATA B cf = UMM_DATA B cf' \<and> k \<le> nb B h cf' - cf' \<and>
           (if nb B h cf' - cf' = k
            then (\<exists>fl'. valid B (umm_disconnect_from_free_list B cf h) S fl') \<and>
                 nb B (umm_disconnect_from_free_list B cf h) = nb B h \<and>
                 is_free B (umm_disconnect_from_free_list B cf h) = (is_free B h)(cf' := False)
            else (\<exists>fl'. valid B (umm_disconnect_from_free_list B cf h) (insert (cf' + k) S) fl') \<and>
                 nb B (umm_disconnect_from_free_list B cf h) = (nb B h)(cf' + k := nb B h cf', cf' := cf' + k) \<and>
                 is_free B (umm_disconnect_from_free_list B cf h) = (is_free B h)(cf' + k := True, cf' := False))"
        using cfl exact bs vd e by (intro bexI [of _ cf]) simp_all
      with eq e(3) show ?thesis
        by (intro exI [of _ "umm_disconnect_from_free_list B cf h"] exI [of _ "Some (UMM_DATA B cf)"]) simp
    next
      case False
      have eq: "umm_malloc_core B policy sz h = Some (h5, Some (UMM_DATA B cf))"
        using f(8) False kb by (simp add: core)
      have kk: "0 < k" "k < nb B h cf - cf" using k1 False kb bs by simp_all
      note ms0 = malloc_split_valid [OF B v cfl kk]
      have ms: "\<exists>fl'. valid B h5 (insert (cf + k) S) fl'"
        "nb B h5 = (nb B h)(cf + k := nb B h cf, cf := cf + k)"
        "is_free B h5 = (is_free B h)(cf + k := True, cf := False)"
        "numblocks h5 = numblocks h"
        using ms0 unfolding h5_def h4_def h3_def h2_def h1_def by blast+
      have "\<exists>cf'\<in>set fl. UMM_DATA B cf = UMM_DATA B cf' \<and> k \<le> nb B h cf' - cf' \<and>
           (if nb B h cf' - cf' = k
            then (\<exists>fl'. valid B h5 S fl') \<and> nb B h5 = nb B h \<and>
                 is_free B h5 = (is_free B h)(cf' := False)
            else (\<exists>fl'. valid B h5 (insert (cf' + k) S) fl') \<and>
                 nb B h5 = (nb B h)(cf' + k := nb B h cf', cf' := cf' + k) \<and>
                 is_free B h5 = (is_free B h)(cf' + k := True, cf' := False))"
        using cfl False bs kb ms(1-3) by (intro bexI [of _ cf]) simp_all
      with eq ms(4) show ?thesis
        by (intro exI [of _ h5] exI [of _ "Some (UMM_DATA B cf)"]) simp
    qed
  next
    case False
    with post' have fail: "bs < k" "\<forall>x\<in>set fl. sub16 (nb B h x) x < k" by auto
    have "umm_malloc_core B policy sz h = Some (h, None)"
      using fail(1) by (simp add: core)
    moreover have "\<forall>x\<in>set fl. nb B h x - x < k"
      using fail(2) valid_free_size(6) [OF v] by simp
    ultimately show ?thesis by simp
  qed
qed

subsection \<open>Initialisation\<close>

lemma rd16_zero: "m a = 0 \<Longrightarrow> m (a + 1) = 0 \<Longrightarrow> rd16 m a = 0"
  by (simp add: rd16_def)

lemma memset_fields_zero:
  fixes m :: memory and n :: nat
  assumes B: "8 \<le> B" and b: "b * B + B \<le> sz"
  defines "h0 \<equiv> \<lparr>mem = memset m 0 0 sz, heap_size = sz, numblocks = n\<rparr>"
  shows "UMM_NBLOCK B h0 b = 0" "UMM_PBLOCK B h0 b = 0" "UMM_NFREE B h0 b = 0" "UMM_PFREE B h0 b = 0"
  using assms
  by (simp_all add: UMM_NBLOCK_def UMM_PBLOCK_def UMM_NFREE_def UMM_PFREE_def rd16_zero memset_def)

lemma init_heap_views:
  assumes B: "8 \<le> B" and i: "umm_init_heap B m sz = Some h" and n: "3 \<le> numblocks h" "numblocks h \<le> 32767"
  shows "\<forall>b<numblocks h. UMM_NBLOCK B h b =
            (if b = 0 then 1 else if b = 1 then numblocks h - 1 + 32768 else 0)"
    and "\<forall>b<numblocks h. UMM_PBLOCK B h b = (if b = numblocks h - 1 then 1 else 0)"
    and "\<forall>b<numblocks h. UMM_NFREE B h b = (if b = 0 then 1 else 0)"
    and "\<forall>b<numblocks h. UMM_PFREE B h b = (if b = 0 then 1 else 0)"
proof -
  define N where "N = u16 (sz div B)"
  define L where "L = N - 1"
  define h0 where "h0 = \<lparr>mem = memset m 0 0 sz, heap_size = sz, numblocks = N\<rparr>"
  from i have N0: "N \<noteq> 0" by (auto simp: umm_init_heap_def Let_def N_def split: if_splits)
  with i have h: "h = set_PBLOCK B L 1 (set_NBLOCK B 1 (L OR UMM_FREELIST_MASK)
                     (set_PFREE B 0 1 (set_NFREE B 0 1 (set_NBLOCK B 0 1 h0))))"
    by (simp add: umm_init_heap_def Let_def N_def h0_def L_def)
  have num: "numblocks h = N" by (simp add: h h0_def)
  have L: "numblocks h - 1 = L" "2 \<le> L" "L < 32767" using n by (simp_all add: num L_def)
  have "N \<le> sz div B" by (simp add: N_def u16_def)
  then have "N * B \<le> sz div B * B" by (rule mult_le_mono1)
  also have "\<dots> \<le> sz" by simp
  finally have NB: "N * B \<le> sz" .
  have zero: "UMM_NBLOCK B h0 b = 0" "UMM_PBLOCK B h0 b = 0" "UMM_NFREE B h0 b = 0"
    "UMM_PFREE B h0 b = 0" if "b < N" for b
  proof -
    from that have "b * B + B \<le> N * B" by (rule block_step)
    with NB have "b * B + B \<le> sz" by simp
    from memset_fields_zero [OF B this, of m N]
    show "UMM_NBLOCK B h0 b = 0" "UMM_PBLOCK B h0 b = 0" "UMM_NFREE B h0 b = 0"
      "UMM_PFREE B h0 b = 0" by (simp_all add: h0_def)
  qed
  have last: "L OR UMM_FREELIST_MASK = L + 32768"
    using L(3) by (intro or_free) simp
  have u: "u16 (L + 32768) = L + 32768" "u16 1 = 1" "u16 (Suc 0) = Suc 0"
    using L(3) by (simp_all add: u16_id)
  have e: "UMM_NBLOCK B h = (UMM_NBLOCK B h0)(0 := 1, 1 := L + 32768)"
    "UMM_PBLOCK B h = (UMM_PBLOCK B h0)(L := 1)"
    "UMM_NFREE B h = (UMM_NFREE B h0)(0 := 1)"
    "UMM_PFREE B h = (UMM_PFREE B h0)(0 := 1)"
    using B by (simp_all add: h view_simps last u)
  show "\<forall>b<numblocks h. UMM_NBLOCK B h b =
            (if b = 0 then 1 else if b = 1 then numblocks h - 1 + 32768 else 0)"
    unfolding e num using zero(1) by (simp add: L_def)
  show "\<forall>b<numblocks h. UMM_PBLOCK B h b = (if b = numblocks h - 1 then 1 else 0)"
    unfolding e num using zero(2) by (simp add: L_def)
  show "\<forall>b<numblocks h. UMM_NFREE B h b = (if b = 0 then 1 else 0)"
    unfolding e num using zero(3) by simp
  show "\<forall>b<numblocks h. UMM_PFREE B h b = (if b = 0 then 1 else 0)"
    unfolding e num using zero(4) by simp
qed

lemma init_heap_valid:
  assumes B: "8 \<le> B" and i: "umm_init_heap B m sz = Some h" and n: "3 \<le> numblocks h" "numblocks h \<le> 32767"
  shows "valid B h {0, 1, numblocks h - 1} [1]"
proof -
  define N where "N = numblocks h"
  note w = init_heap_views [OF B i n, folded N_def]
  have N: "3 \<le> N" "N \<le> 32767" using n by (simp_all add: N_def)
  have "(N - 1 + 32768) mod 32768 = (N - 1) mod 32768" by (rule mod_add_self2)
  then have md: "(N - 1 + 32768) mod 32768 = N - 1" using N by simp
  have nb1: "UMM_NBLOCK B h 1 = N - 1 + 32768" using w(1) N by simp
  have nbv: "nb B h 0 = 1" "nb B h 1 = N - 1" "nb B h (N - 1) = 0"
    using w(1) N md by (simp_all add: nb_eq nb1)
  have frv: "\<not> is_free B h 0" "is_free B h 1" "\<not> is_free B h (N - 1)"
    using w(1) N by (simp_all add: is_free_eq)
  have pbv: "UMM_PBLOCK B h 1 = 0" "UMM_PBLOCK B h (N - 1) = 1"
    using w(2) N by simp_all
  have nfv: "UMM_NFREE B h 0 = 1" "UMM_NFREE B h 1 = 0" using w(3) N by simp_all
  have pfv: "UMM_PFREE B h 0 = 1" "UMM_PFREE B h 1 = 0" using w(4) N by simp_all
  have "chain_ok N (nb B h) (UMM_PBLOCK B h) {0, 1, N - 1}"
    unfolding chain_ok_def using N nbv pbv by auto
  moreover have "flags_ok N (nb B h) (is_free B h) {0, 1, N - 1} [1]"
    unfolding flags_ok_def using N nbv frv by auto
  moreover have "dll (UMM_NFREE B h) (UMM_PFREE B h) 0 [1]"
    using nfv pfv by simp
  ultimately show ?thesis by (simp add: valid_def heap_inv_def N_def)
qed

subsection \<open>Stores into the body of a used block\<close>

lemma rd16_cong: "m' a = m a \<Longrightarrow> m' (a + 1) = m (a + 1) \<Longrightarrow> rd16 m' a = rd16 m a"
  by (simp add: rd16_def)

lemma rd16_same_outside:
  assumes same: "\<forall>a. a < lo \<or> hi \<le> a \<longrightarrow> m' a = m a" and x: "x + 2 \<le> lo \<or> hi \<le> x"
  shows "rd16 m' x = rd16 m x"
proof (rule rd16_cong)
  from x have "x < lo \<or> hi \<le> x" by arith
  with same show "m' x = m x" by blast
  from x have "x + 1 < lo \<or> hi \<le> x + 1" by arith
  with same show "m' (x + 1) = m (x + 1)" by blast
qed

lemma valid_frame:
  assumes B: "8 \<le> B" and v: "valid B h S fl"
    and c: "c \<in> S" "c \<noteq> 0" "c \<noteq> numblocks h - 1" "\<not> is_free B h c"
    and num: "numblocks h' = numblocks h"
    and same: "\<forall>a. a < c * B + 4 \<or> nb B h c * B \<le> a \<longrightarrow> mem h' a = mem h a"
  shows "valid B h' S fl"
    and "\<forall>i\<in>S. nb B h' i = nb B h i \<and> is_free B h' i = is_free B h i
            \<and> UMM_PBLOCK B h' i = UMM_PBLOCK B h i"
proof -
  note sc = valid_next [OF v c(1,3)]
  note rd = rd16_same_outside [OF same]
  have out: "i * B + B \<le> c * B \<or> nb B h c * B \<le> i * B" if "i \<in> S" "i \<noteq> c" for i
  proof (cases "i < c")
    case True
    then show ?thesis using block_step [of i c B] by simp
  next
    case False
    with that have "c < i" by simp
    from chain_ok_between [OF valid_parts(1) [OF v] c(1) that(1) this]
    show ?thesis by simp
  qed
  have hdr: "UMM_NBLOCK B h' i = UMM_NBLOCK B h i \<and> UMM_PBLOCK B h' i = UMM_PBLOCK B h i"
    if "i \<in> S" for i
  proof (cases "i = c")
    case True
    have "rd16 (mem h') (c * B) = rd16 (mem h) (c * B)" by (rule rd) simp
    moreover have "rd16 (mem h') (c * B + 2) = rd16 (mem h) (c * B + 2)" by (rule rd) simp
    ultimately show ?thesis using True by (simp add: UMM_NBLOCK_def UMM_PBLOCK_def)
  next
    case False
    note o = out [OF that False]
    have "rd16 (mem h') (i * B) = rd16 (mem h) (i * B)" using o B by (intro rd) arith
    moreover have "rd16 (mem h') (i * B + 2) = rd16 (mem h) (i * B + 2)"
      using o B by (intro rd) arith
    ultimately show ?thesis by (simp add: UMM_NBLOCK_def UMM_PBLOCK_def)
  qed
  then show views: "\<forall>i\<in>S. nb B h' i = nb B h i \<and> is_free B h' i = is_free B h i
            \<and> UMM_PBLOCK B h' i = UMM_PBLOCK B h i"
    by (simp add: nb_eq is_free_eq)
  have fre: "UMM_NFREE B h' i = UMM_NFREE B h i \<and> UMM_PFREE B h' i = UMM_PFREE B h i"
    if "i \<in> insert 0 (set fl)" for i
  proof -
    have "i \<in> S" "i \<noteq> c"
      using that valid_free(1) [OF v, of i] c(2,4) chain_ok_bounds(3) [OF valid_parts(1) [OF v]]
      by auto
    note o = out [OF this]
    have "rd16 (mem h') (i * B + 4) = rd16 (mem h) (i * B + 4)" using o B by (intro rd) arith
    moreover have "rd16 (mem h') (i * B + 6) = rd16 (mem h) (i * B + 6)"
      using o B by (intro rd) arith
    ultimately show ?thesis by (simp add: UMM_NFREE_def UMM_PFREE_def)
  qed
  have "heap_inv (numblocks h) (nb B h') (is_free B h') (UMM_PBLOCK B h') (UMM_NFREE B h')
          (UMM_PFREE B h') S fl"
  proof (rule heap_inv_cong)
    show "heap_inv (numblocks h) (nb B h) (is_free B h) (UMM_PBLOCK B h) (UMM_NFREE B h)
            (UMM_PFREE B h) S fl" using v by (simp add: valid_def)
    show "\<forall>i\<in>S. nb B h' i = nb B h i \<and> is_free B h' i = is_free B h i \<and>
            UMM_PBLOCK B h' i = UMM_PBLOCK B h i" by (rule views)
    show "\<forall>i\<in>insert 0 (set fl). UMM_NFREE B h' i = UMM_NFREE B h i \<and>
            UMM_PFREE B h' i = UMM_PFREE B h i" using fre by blast
  qed
  then show "valid B h' S fl" by (simp add: valid_def num)
qed

subsection \<open>Reallocation\<close>

lemma numblocks_mem_update [simp]: "numblocks (h\<lparr>mem := x\<rparr>) = numblocks h"
  by simp

lemma realloc_finish_valid:
  assumes B: "8 \<le> B" and v: "valid B h S fl"
    and c: "c \<in> S" "c \<noteq> 0" "c \<noteq> numblocks h - 1" "\<not> is_free B h c"
    and bs: "bsz = nb B h c - c" and k1: "1 \<le> k"
  shows "\<exists>S' fl'. valid B (fst (realloc_finish B k bsz c r h)) S' fl'"
    and "numblocks (fst (realloc_finish B k bsz c r h)) = numblocks h"
    and "snd (realloc_finish B k bsz c r h) = r"
proof -
  show "snd (realloc_finish B k bsz c r h) = r" by (simp add: realloc_finish_def)
  have "(\<exists>S' fl'. valid B (fst (realloc_finish B k bsz c r h)) S' fl') \<and>
      numblocks (fst (realloc_finish B k bsz c r h)) = numblocks h"
  proof (cases "k < bsz")
    case False
    then show ?thesis using v by (auto simp: realloc_finish_def)
  next
    case True
    define g where "g = umm_split_block B c k 0 h"
    show ?thesis
    proof -
      from k1 have k: "0 < k" "c + k < nb B h c" using True bs by simp_all
      have vg: "valid B g (insert (c + k) S) fl"
        unfolding g_def using B v c(1,3,4) k by (rule valid_split_used)
      have d32: "c + k < 32768" using k(2) nb_lt [of B h c] by simp
      have m: "(0::nat) = 0 \<or> 0 = UMM_FREELIST_MASK" by simp
      note e = split_effect [OF B k(1) d32 m, of h, folded g_def]
      have z: "(0 = UMM_FREELIST_MASK) = False" by (simp add: UMM_FREELIST_MASK_def)
      have dl: "c + k \<noteq> numblocks g - 1"
      proof -
        have "nb B h c < numblocks h" using valid_lt(1) [OF v valid_next(1) [OF v c(1,3)]] .
        with k(2) show ?thesis by (simp add: e)
      qed
      have "\<exists>fl'. valid B (umm_free_core B (UMM_DATA B (c + k)) g)
              (insert (c + k) S - (if is_free B g (nb B g (c + k)) then {nb B g (c + k)} else {})
                 - (if is_free B g (UMM_PBLOCK B g (c + k)) then {c + k} else {})) fl'"
        using B vg _ _ dl by (rule free_core_valid(1)) (use k in \<open>simp_all add: e z\<close>)
      moreover have "numblocks (umm_free_core B (UMM_DATA B (c + k)) g) = numblocks g"
        using B vg _ _ dl by (rule free_core_valid(2)) (use k in \<open>simp_all add: e z\<close>)
      ultimately show ?thesis
        using True by (auto simp: realloc_finish_def g_def [symmetric] e)
    qed
  qed
  then show "\<exists>S' fl'. valid B (fst (realloc_finish B k bsz c r h)) S' fl'"
    "numblocks (fst (realloc_finish B k bsz c r h)) = numblocks h" by blast+
qed

lemma cur_size_le:
  "1 \<le> bsz \<Longrightarrow> 8 \<le> (B::nat) \<Longrightarrow> (bsz * B + 4294967296 - 4) mod 4294967296 \<le> bsz * B - 4"
proof -
  assume a: "1 \<le> bsz" "8 \<le> B"
  then have "1 * 8 \<le> bsz * B" by (rule mult_le_mono)
  then have e: "bsz * B + 4294967296 - 4 = (bsz * B - 4) + 4294967296" by simp
  have "(bsz * B - 4 + 4294967296) mod 4294967296 = (bsz * B - 4) mod 4294967296"
    by (rule mod_add_self2)
  also have "\<dots> \<le> bsz * B - 4" by (rule mod_less_eq_dividend)
  finally show ?thesis unfolding e .
qed

lemma body_fits:
  assumes "p \<le> c" "c < n" "8 \<le> (B::nat)" "cur \<le> (n - c) * B - 4"
  shows "p * B + 4 + cur \<le> n * B"
proof -
  from assms(2) have "1 * B \<le> (n - c) * B" by (intro mult_le_mono1) simp
  then have "B \<le> (n - c) * B" by (simp only: mult_1)
  with assms(3) have "8 \<le> (n - c) * B" by linarith
  with assms(4) have "4 + cur \<le> (n - c) * B" by linarith
  moreover have "p * B \<le> c * B" using assms(1) by (rule mult_le_mono1)
  moreover have "c * B + (n - c) * B = n * B"
    using assms(2) by (simp add: add_mult_distrib [symmetric])
  ultimately show ?thesis by linarith
qed

text \<open>
  The common part of cases 4 and 5 of \<^verbatim>\<open>umm_realloc\<close>: unlink the free predecessor, merge
  into it, move the contents down, and finish.
\<close>

lemma realloc_down_valid:
  fixes a cur :: nat and r :: ptr
  assumes B: "8 \<le> B" and v: "valid B g T gl"
    and c: "c \<in> T" "c \<noteq> 0" "c \<noteq> numblocks g - 1" "\<not> is_free B g c"
    and pf: "is_free B g (UMM_PBLOCK B g c)"
    and cur: "cur \<le> (nb B g c - c) * B - 4"
    and tot: "tot = nb B g c - UMM_PBLOCK B g c" and k1: "1 \<le> k"
  defines "h1 \<equiv> umm_disconnect_from_free_list B (UMM_PBLOCK B g c) g"
  defines "r2 \<equiv> umm_assimilate_down B c 0 h1"
  defines "h3 \<equiv> (fst r2)\<lparr>mem := memmove (mem (fst r2)) (UMM_DATA B (snd r2)) a cur\<rparr>"
  shows "\<exists>S' fl'. valid B (fst (realloc_finish B k tot (snd r2) r h3)) S' fl'"
    and "numblocks (fst (realloc_finish B k tot (snd r2) r h3)) = numblocks g"
    and "snd r2 = UMM_PBLOCK B g c"
proof -
  define p where "p = UMM_PBLOCK B g c"
  define n where "n = nb B g c"
  note pr = valid_pred [OF v c(1,2), folded p_def]
  note sc = valid_next [OF v c(1,3), folded n_def]
  have pfl: "p \<in> set gl" using valid_free(1) [OF v] pr(1) pf by (simp add: p_def)
  have p0: "p \<noteq> 0" using valid_free_size(3) [OF v pfl] .
  from valid_disconnect [OF B v pfl] obtain fl1 where v1: "valid B h1 T fl1"
    by (auto simp: h1_def p_def)
  note e1 = disconnect_effect [OF B, of p g, folded p_def h1_def, unfolded p_def [symmetric]]
  have e1': "UMM_PBLOCK B h1 = UMM_PBLOCK B g" "nb B h1 = nb B g"
    "is_free B h1 = (is_free B g)(p := False)" "numblocks h1 = numblocks g"
    using disconnect_effect(3-6) [OF B, of p g] by (simp_all add: h1_def p_def)
  have c1: "c \<noteq> numblocks h1 - 1" "\<not> is_free B h1 c" using c by (simp_all add: e1')
  have m: "(0::nat) = 0 \<or> 0 = UMM_FREELIST_MASK" by simp
  have z: "(0 = UMM_FREELIST_MASK) = False" by (simp add: UMM_FREELIST_MASK_def)
  note e2 = assimilate_down_effect [OF B v1 c(1,2) c1 m, folded r2_def, unfolded e1' z, folded p_def n_def]
  show sp: "snd r2 = UMM_PBLOCK B g c" using e2(1) by (simp add: p_def)
  have v2: "valid B (fst r2) (T - {c}) fl1"
    unfolding r2_def using B v1 c(1,2) c1 m
    by (rule valid_assimilate_down) (simp_all add: e1' z p_def [symmetric])
  have p2: "p \<in> T - {c}" "p \<noteq> numblocks (fst r2) - 1" "\<not> is_free B (fst r2) p"
    "nb B (fst r2) p = n"
    using pr(1,2,4) by (simp_all add: e2 e1')
  have "p * B + 4 + cur \<le> n * B"
    using pr(2) sc(2) B cur by (intro body_fits [of p c]) (simp_all add: n_def)
  then have same: "\<forall>x. x < p * B + 4 \<or> nb B (fst r2) p * B \<le> x \<longrightarrow> mem h3 x = mem (fst r2) x"
    by (auto simp: h3_def memmove_def e2(1) UMM_DATA_def p2(4))
  have num3: "numblocks h3 = numblocks (fst r2)" by (simp add: h3_def)
  note fr = valid_frame [OF B v2 p2(1) p0 p2(2,3) num3 same]
  have p3: "p \<noteq> numblocks h3 - 1" "\<not> is_free B h3 p" "tot = nb B h3 p - p"
    using fr(2) p2 by (simp_all add: num3 tot p_def [symmetric] n_def [symmetric])
  from realloc_finish_valid [OF B fr(1) p2(1) p0 p3 k1, of r]
  show "\<exists>S' fl'. valid B (fst (realloc_finish B k tot (snd r2) r h3)) S' fl'"
    "numblocks (fst (realloc_finish B k tot (snd r2) r h3)) = numblocks g"
    by (simp_all add: e2(1) num3 e2(7) e1')
qed

lemma realloc_alt:
  "umm_realloc B policy p sz h =
     (case p of
        None \<Rightarrow> umm_malloc B policy sz h
      | Some a \<Rightarrow>
          if 0 = sz then Some (umm_free B (Some a) h, None)
          else
            let blocks = umm_blocks B sz;
                c = u16 (a div B);
                blockSize = sub16 (UMM_NBLOCK B h c) c;
                curSize = (blockSize * B + 4294967296 - 4) mod 4294967296;
                nextBlockSize =
                  (if is_free B h (UMM_NBLOCK B h c)
                   then sub16 (nb B h (UMM_NBLOCK B h c)) (UMM_NBLOCK B h c)
                   else 0);
                prevBlockSize =
                  (if is_free B h (UMM_PBLOCK B h c)
                   then sub16 c (UMM_PBLOCK B h c)
                   else 0)
            in if blockSize \<ge> blocks then
                 Some (realloc_finish B blocks blockSize c (Some a) h)
               else if blockSize + nextBlockSize = blocks then
                 Some (realloc_finish B blocks (u16 (blockSize + nextBlockSize)) c (Some a)
                         (umm_assimilate_up B c h))
               else if 0 = prevBlockSize \<and> blockSize + nextBlockSize \<ge> blocks then
                 Some (realloc_finish B blocks (u16 (blockSize + nextBlockSize)) c (Some a)
                         (umm_assimilate_up B c h))
               else if prevBlockSize + blockSize \<ge> blocks then
                 let h1 = umm_disconnect_from_free_list B (UMM_PBLOCK B h c) h;
                     (h2, c') = umm_assimilate_down B c 0 h1;
                     h3 = h2\<lparr>mem := memmove (mem h2) (UMM_DATA B c') a curSize\<rparr>
                 in Some (realloc_finish B blocks (u16 (blockSize + prevBlockSize)) c'
                            (Some (UMM_DATA B c')) h3)
               else if prevBlockSize + blockSize + nextBlockSize \<ge> blocks then
                 let h0 = umm_assimilate_up B c h;
                     h1 = umm_disconnect_from_free_list B (UMM_PBLOCK B h0 c) h0;
                     (h2, c') = umm_assimilate_down B c 0 h1;
                     h3 = h2\<lparr>mem := memmove (mem h2) (UMM_DATA B c') a curSize\<rparr>
                 in Some (realloc_finish B blocks (u16 (blockSize + u16 (prevBlockSize + nextBlockSize))) c'
                            (Some (UMM_DATA B c')) h3)
               else
                 (case umm_malloc_core B policy sz h of
                    None \<Rightarrow> None
                  | Some (h1, None) \<Rightarrow> Some (realloc_finish B blocks blocks c None h1)
                  | Some (h1, Some q) \<Rightarrow>
                      let h2 = h1\<lparr>mem := memmove (mem h1) q a curSize\<rparr>
                      in Some (realloc_finish B blocks blocks c (Some q) (umm_free_core B a h2))))"
  unfolding umm_realloc_def is_free_def nb_def by (rule refl)

text \<open>The quantities \<^verbatim>\<open>umm_realloc\<close> computes for a live allocation of a valid heap.\<close>

lemma realloc_quantities:
  assumes B: "8 \<le> B" and v: "valid B h S fl"
    and c: "c \<in> S" "c \<noteq> 0" "c \<noteq> numblocks h - 1" "\<not> is_free B h c"
  defines "n \<equiv> nb B h c" and "p \<equiv> UMM_PBLOCK B h c"
  shows "u16 (UMM_DATA B c div B) = c" and "UMM_NBLOCK B h c = n"
    and "sub16 n c = n - c" and "1 \<le> n - c"
    and "is_free B h n \<Longrightarrow> sub16 (nb B h n) n = nb B h n - n \<and> 1 \<le> nb B h n - n"
    and "sub16 c p = c - p" and "1 \<le> c - p"
    and "n - c < 32768" and "is_free B h n \<Longrightarrow> nb B h n - c < 32768" and "n - p < 32768"
    and "is_free B h n \<Longrightarrow> nb B h n - p < 32768"
proof -
  note sc = valid_next [OF v c(1,3), folded n_def]
  note pr = valid_pred [OF v c(1,2), folded p_def]
  have clt: "c < 32768" using valid_lt(2) [OF v c(1)] by simp
  show "u16 (UMM_DATA B c div B) = c" using B clt by (simp add: data_div u16_id)
  show "UMM_NBLOCK B h c = n" using nb_used [OF c(4)] by (simp add: n_def)
  have nlt: "n < 32768" unfolding n_def by (rule nb_lt)
  show "sub16 n c = n - c" using sc(2) nlt by (intro sub16_diff) simp_all
  show "1 \<le> n - c" using sc(2) by simp
  show "sub16 c p = c - p" using pr(2) clt by (intro sub16_diff) simp_all
  show "1 \<le> c - p" using pr(2) by simp
  show "n - c < 32768" "n - p < 32768" using nlt by simp_all
  have nn: "nb B h n < 32768" by (rule nb_lt)
  then show "is_free B h n \<Longrightarrow> nb B h n - c < 32768" "is_free B h n \<Longrightarrow> nb B h n - p < 32768"
    by simp_all
  show "sub16 (nb B h n) n = nb B h n - n \<and> 1 \<le> nb B h n - n" if "is_free B h n"
  proof -
    have "n \<in> set fl" using valid_free(1) [OF v] sc(1) that by simp
    from valid_free_size(5,6) [OF v this] show ?thesis by simp
  qed
qed

text \<open>
  \<^verbatim>\<open>umm_realloc\<close> of a live allocation to a size other than 0 returns and keeps the heap
  valid.
\<close>

lemma realloc_valid:
  fixes sz :: nat and policy :: fit
  assumes B: "8 \<le> B" and v: "valid B h S fl"
    and c: "c \<in> S" "c \<noteq> 0" "c \<noteq> numblocks h - 1" "\<not> is_free B h c"
    and sz: "sz \<noteq> 0"
  shows "\<exists>h' r S' fl'. umm_realloc B policy (Some (UMM_DATA B c)) sz h = Some (h', r) \<and>
           valid B h' S' fl' \<and> numblocks h' = numblocks h"
proof -
  define a where "a = UMM_DATA B c"
  define k where "k = umm_blocks B sz"
  define n where "n = nb B h c"
  define p where "p = UMM_PBLOCK B h c"
  define bsz where "bsz = n - c"
  define cur where "cur = (bsz * B + 4294967296 - 4) mod 4294967296"
  define nx where "nx = (if is_free B h n then sub16 (nb B h n) n else 0)"
  define pv where "pv = (if is_free B h p then sub16 c p else 0)"
  note q = realloc_quantities [OF B v c, folded n_def p_def]
  note sc = valid_next [OF v c(1,3), folded n_def]
  note pr = valid_pred [OF v c(1,2), folded p_def]
  have k1: "1 \<le> k" unfolding k_def using B by (rule umm_blocks_ge1)
  have nx_eq: "nx = (if is_free B h n then nb B h n - n else 0)" using q(5) by (simp add: nx_def)
  have pv_eq: "pv = (if is_free B h p then c - p else 0)" using q(6) by (simp add: pv_def)
  have curle: "cur \<le> bsz * B - 4" unfolding cur_def using q(4) B by (intro cur_size_le) (simp_all add: bsz_def)
  define down where "down = (\<lambda>g. let h1 = umm_disconnect_from_free_list B (UMM_PBLOCK B g c) g;
                     r2 = umm_assimilate_down B c 0 h1;
                     h3 = (fst r2)\<lparr>mem := memmove (mem (fst r2)) (UMM_DATA B (snd r2)) a cur\<rparr>
                 in (r2, h3))"
  have szF: "(0 = sz) = False" using sz by simp
  have core: "umm_realloc B policy (Some a) sz h =
     (if bsz \<ge> k then Some (realloc_finish B k bsz c (Some a) h)
      else if bsz + nx = k then
        Some (realloc_finish B k (u16 (bsz + nx)) c (Some a) (umm_assimilate_up B c h))
      else if 0 = pv \<and> bsz + nx \<ge> k then
        Some (realloc_finish B k (u16 (bsz + nx)) c (Some a) (umm_assimilate_up B c h))
      else if pv + bsz \<ge> k then
        Some (realloc_finish B k (u16 (bsz + pv)) (snd (fst (down h)))
                (Some (UMM_DATA B (snd (fst (down h))))) (snd (down h)))
      else if pv + bsz + nx \<ge> k then
        Some (realloc_finish B k (u16 (bsz + u16 (pv + nx))) (snd (fst (down (umm_assimilate_up B c h))))
                (Some (UMM_DATA B (snd (fst (down (umm_assimilate_up B c h))))))
                (snd (down (umm_assimilate_up B c h))))
      else
        (case umm_malloc_core B policy sz h of
           None \<Rightarrow> None
         | Some (h1, None) \<Rightarrow> Some (realloc_finish B k k c None h1)
         | Some (h1, Some q) \<Rightarrow>
             Some (realloc_finish B k k c (Some q)
                     (umm_free_core B a (h1\<lparr>mem := memmove (mem h1) q a cur\<rparr>)))))"
    unfolding realloc_alt option.case szF if_False Let_def split_beta
    unfolding q(1) [folded a_def]
    unfolding q(2) q(3) k_def [symmetric]
    unfolding down_def Let_def fst_conv snd_conv cur_def nx_def pv_def bsz_def p_def
    by (rule refl)
  have fin: "\<exists>h' r S' fl'. Some (realloc_finish B k b c' r0 g) = Some (h', r) \<and>
           valid B h' S' fl' \<and> numblocks h' = numblocks h"
    if "\<exists>S' fl'. valid B (fst (realloc_finish B k b c' r0 g)) S' fl'"
      "numblocks (fst (realloc_finish B k b c' r0 g)) = numblocks h" for b c' r0 g
    using that by (cases "realloc_finish B k b c' r0 g") auto
  have "\<exists>h' r S' fl'. umm_realloc B policy (Some a) sz h = Some (h', r) \<and>
           valid B h' S' fl' \<and> numblocks h' = numblocks h"
  proof (cases "bsz \<ge> k")
    case True
    have "bsz = nb B h c - c" by (simp add: bsz_def n_def)
    note rf = realloc_finish_valid [OF B v c this k1, of "Some a"]
    from rf(1,2) have "\<exists>h' r S' fl'. Some (realloc_finish B k bsz c (Some a) h) = Some (h', r) \<and>
           valid B h' S' fl' \<and> numblocks h' = numblocks h" by (rule fin)
    with True show ?thesis unfolding core by simp
  next
    case c1: False
    show ?thesis
    proof (cases "bsz + nx = k \<or> (0 = pv \<and> bsz + nx \<ge> k)")
      case True
      with c1 have "nx \<noteq> 0" by auto
      then have nfree: "is_free B h n" by (auto simp: nx_def split: if_splits)
      note up = assimilate_up_summary [OF B v c(1,3,4), folded n_def]
      from up(1) nfree obtain fl0 where v0: "valid B (umm_assimilate_up B c h) (S - {n}) fl0" by auto
      have c0: "c \<in> S - {n}" "c \<noteq> numblocks (umm_assimilate_up B c h) - 1"
        "\<not> is_free B (umm_assimilate_up B c h) c"
        using c sc(2) by (simp_all add: up(3,5))
      have "n < nb B h n" using conjunct2 [OF q(5) [OF nfree]] by linarith
      with sc(2) nfree have "bsz + nx = nb B h n - c" unfolding nx_eq bsz_def by simp
      with q(9) [OF nfree] nfree have "u16 (bsz + nx) = nb B (umm_assimilate_up B c h) c - c"
        by (simp add: up(2) u16_id)
      note rf = realloc_finish_valid [OF B v0 c0(1) c(2) c0(2,3) this k1, of "Some a"]
      from rf(1) rf(2) [unfolded up(5)]
      have "\<exists>h' r S' fl'. Some (realloc_finish B k (u16 (bsz + nx)) c (Some a)
                 (umm_assimilate_up B c h)) = Some (h', r) \<and>
           valid B h' S' fl' \<and> numblocks h' = numblocks h" by (rule fin)
      with c1 True show ?thesis unfolding core by auto
    next
      case c23: False
      show ?thesis
      proof (cases "pv + bsz \<ge> k")
        case True
        with c1 have "pv \<noteq> 0" by auto
        then have pfree: "is_free B h p" by (auto simp: pv_def split: if_splits)
        have cur4: "cur \<le> (nb B h c - c) * B - 4" using curle by (simp add: bsz_def n_def)
        have "bsz + pv = n - p" using pfree pr(2) sc(2) unfolding pv_eq bsz_def by simp
        with q(10) have tot4: "u16 (bsz + pv) = nb B h c - UMM_PBLOCK B h c"
          by (simp add: u16_id n_def p_def)
        have
          "\<exists>S' fl'. valid B (fst (realloc_finish B k (u16 (bsz + pv)) (snd (fst (down h)))
                (Some (UMM_DATA B (snd (fst (down h))))) (snd (down h)))) S' fl'"
          "numblocks (fst (realloc_finish B k (u16 (bsz + pv)) (snd (fst (down h)))
                (Some (UMM_DATA B (snd (fst (down h))))) (snd (down h)))) = numblocks h"
          using realloc_down_valid(1,2) [OF B v c pfree [unfolded p_def] cur4 tot4 k1,
               where a = a and r = "Some (UMM_DATA B (snd (fst (down h))))"]
          by (simp_all add: down_def Let_def)
        then have "\<exists>h' r S' fl'. Some (realloc_finish B k (u16 (bsz + pv)) (snd (fst (down h)))
                (Some (UMM_DATA B (snd (fst (down h))))) (snd (down h))) = Some (h', r) \<and>
           valid B h' S' fl' \<and> numblocks h' = numblocks h" by (rule fin)
        with c1 c23 True show ?thesis unfolding core by auto
      next
        case c4: False
        show ?thesis
        proof (cases "pv + bsz + nx \<ge> k")
          case True
          with c4 have "nx \<noteq> 0" by auto
          then have nfree: "is_free B h n" by (auto simp: nx_def split: if_splits)
          from True c23 have "pv \<noteq> 0" by auto
          then have pfree: "is_free B h p" by (auto simp: pv_def split: if_splits)
          define g where "g = umm_assimilate_up B c h"
          note up0 = assimilate_up_summary [OF B v c(1,3,4), folded n_def g_def]
          have up: "\<exists>fl'. valid B g (S - {n}) fl'" "nb B g c = nb B h n"
            "is_free B g = (is_free B h)(n := False)"
            "\<forall>i\<in>S - {n}. UMM_PBLOCK B g i = (if i = nb B g c then c else UMM_PBLOCK B h i)"
            "numblocks g = numblocks h"
            using up0 nfree by simp_all
          from up(1) obtain fl0 where v0: "valid B g (S - {n}) fl0" by blast
          have nn_gt: "n < nb B h n" using conjunct2 [OF q(5) [OF nfree]] by linarith
          have nnc: "c < nb B h n" using nn_gt sc(2) by simp
          have c0: "c \<in> S - {n}" "c \<noteq> numblocks g - 1" "\<not> is_free B g c"
            using c sc(2) by (simp_all add: up(3,5))
          have pb0: "UMM_PBLOCK B g c = p" using up(4) c0(1) nnc by (simp add: up(2) p_def)
          have pf0: "is_free B g (UMM_PBLOCK B g c)"
            using pfree pr(2) sc(2) by (simp add: pb0 up(3))
          have "bsz * B \<le> (nb B h n - c) * B"
            using nn_gt by (intro mult_le_mono1) (simp add: bsz_def)
          with curle have cur0: "cur \<le> (nb B g c - c) * B - 4" unfolding up(2) by linarith
          have "n < nb B h n" using conjunct2 [OF q(5) [OF nfree]] by linarith
          with pr(2) sc(2) pfree nfree have sums: "pv + nx = c - p + (nb B h n - n)"
            "bsz + (c - p + (nb B h n - n)) = nb B h n - p"
            unfolding pv_eq nx_eq bsz_def by simp_all
          have "c - p + (nb B h n - n) < 65536" using sums(2) q(11) [OF nfree] by simp
          with sums q(11) [OF nfree]
          have tot0: "u16 (bsz + u16 (pv + nx)) = nb B g c - UMM_PBLOCK B g c"
            by (simp add: u16_id pb0 up(2))
          have
            "\<exists>S' fl'. valid B (fst (realloc_finish B k (u16 (bsz + u16 (pv + nx))) (snd (fst (down g)))
                  (Some (UMM_DATA B (snd (fst (down g))))) (snd (down g)))) S' fl'"
            "numblocks (fst (realloc_finish B k (u16 (bsz + u16 (pv + nx))) (snd (fst (down g)))
                  (Some (UMM_DATA B (snd (fst (down g))))) (snd (down g)))) = numblocks h"
            using realloc_down_valid(1,2) [OF B v0 c0(1) c(2) c0(2,3) pf0 cur0 tot0 k1,
                where a = a and r = "Some (UMM_DATA B (snd (fst (down g))))"]
            by (simp_all add: down_def Let_def up(5))
          then have "\<exists>h' r S' fl'. Some (realloc_finish B k (u16 (bsz + u16 (pv + nx))) (snd (fst (down g)))
                  (Some (UMM_DATA B (snd (fst (down g))))) (snd (down g))) = Some (h', r) \<and>
           valid B h' S' fl' \<and> numblocks h' = numblocks h" by (rule fin)
          with c1 c23 c4 True show ?thesis unfolding core g_def by auto
        next
          case c5: False
          from malloc_core_valid [OF B v, of policy sz, folded k_def] obtain h1 r1 where
            m: "umm_malloc_core B policy sz h = Some (h1, r1)" "numblocks h1 = numblocks h"
            and post: "case r1 of
                None \<Rightarrow> h1 = h \<and> (\<forall>x\<in>set fl. nb B h x - x < k)
              | Some a \<Rightarrow> (\<exists>cf\<in>set fl. a = UMM_DATA B cf \<and> k \<le> nb B h cf - cf \<and>
                 (if nb B h cf - cf = k
                  then (\<exists>fl'. valid B h1 S fl') \<and> nb B h1 = nb B h \<and>
                       is_free B h1 = (is_free B h)(cf := False)
                  else (\<exists>fl'. valid B h1 (insert (cf + k) S) fl') \<and>
                       nb B h1 = (nb B h)(cf + k := nb B h cf, cf := cf + k) \<and>
                       is_free B h1 = (is_free B h)(cf + k := True, cf := False)))"
            by blast
          show ?thesis
          proof (cases r1)
            case None
            with post have "h1 = h" by simp
            with m None c1 c23 c4 c5 v show ?thesis
              unfolding core by (auto simp: realloc_finish_def)
          next
            case (Some qa)
            with post obtain cf where cf: "cf \<in> set fl" "qa = UMM_DATA B cf" "k \<le> nb B h cf - cf"
              and alt: "if nb B h cf - cf = k
                  then (\<exists>fl'. valid B h1 S fl') \<and> nb B h1 = nb B h \<and>
                       is_free B h1 = (is_free B h)(cf := False)
                  else (\<exists>fl'. valid B h1 (insert (cf + k) S) fl') \<and>
                       nb B h1 = (nb B h)(cf + k := nb B h cf, cf := cf + k) \<and>
                       is_free B h1 = (is_free B h)(cf + k := True, cf := False)"
              by auto
            note f = valid_free_size [OF v cf(1)]
            have cfc: "cf \<noteq> c" using f(2) c(4) by auto
            have notin: "cf + k \<notin> S" if "nb B h cf - cf \<noteq> k"
              using valid_parts(1) [OF v] f(1) by (rule chain_ok_split_notin) (use that cf(3) k1 in simp_all)
            define S1 where "S1 = (if nb B h cf - cf = k then S else insert (cf + k) S)"
            from alt obtain fl1 where v1: "valid B h1 S1 fl1" by (auto simp: S1_def split: if_splits)
            have n1: "nb B h1 cf = cf + k" "\<not> is_free B h1 cf"
              "nb B h1 c = n" "\<not> is_free B h1 c" "c \<in> S1" "cf \<in> S1"
              using alt cfc c(1,4) f(1,5) notin cf(3)
              by (auto simp: S1_def n_def split: if_splits)
            define h2 where "h2 = h1\<lparr>mem := memmove (mem h1) qa a cur\<rparr>"
            have "bsz * B \<le> k * B" using c1 by (intro mult_le_mono1) simp
            with curle have "cur \<le> k * B - 4" by linarith
            then have "cur \<le> (cf + k - cf) * B - 4" by simp
            with k1 B have "cf * B + 4 + cur \<le> (cf + k) * B"
              by (intro body_fits [of cf cf]) simp_all
            then have same: "\<forall>x. x < cf * B + 4 \<or> nb B h1 cf * B \<le> x \<longrightarrow> mem h2 x = mem h1 x"
              by (auto simp: h2_def memmove_def cf(2) UMM_DATA_def n1(1))
            have num2: "numblocks h2 = numblocks h1" by (simp add: h2_def)
            have cfl: "cf \<noteq> numblocks h1 - 1" using f(4) by (simp add: m(2))
            note fr = valid_frame [OF B v1 n1(6) f(3) cfl n1(2) num2 same]
            have c2: "c \<noteq> numblocks h2 - 1" "\<not> is_free B h2 c"
              using c(3) fr(2) n1(4,5) by (simp_all add: num2 m(2))
            note fc = free_core_valid(1,2) [OF B fr(1) n1(5) c(2) c2]
            from fc(1) obtain S3 fl3 where v3: "valid B (umm_free_core B a h2) S3 fl3"
              unfolding a_def by blast
            have "numblocks (umm_free_core B a h2) = numblocks h"
              using fc(2) by (simp add: a_def num2 m(2))
            with v3 m Some c1 c23 c4 c5 show ?thesis
              unfolding core by (auto simp: realloc_finish_def h2_def)
          qed
        qed
      qed
    qed
  qed
  then show ?thesis by (simp add: a_def)
qed

lemma valid_chain: "valid B h S fl \<Longrightarrow> chain B h = S"
  using valid_parts(1) by (rule chain_eq)

lemma allocatedD:
  assumes "valid B h S fl" "allocated B h a"
  obtains c where "c \<in> S" "a = UMM_DATA B c" "c \<noteq> 0" "c \<noteq> numblocks h - 1" "\<not> is_free B h c"
  using assms unfolding allocated_def valid_chain [OF assms(1)] by blast

lemma malloc_heap_ok:
  assumes B: "8 \<le> B" and ok: "heap_ok B h" and m: "umm_malloc B policy sz h = Some (h', p)"
  shows "heap_ok B h'"
proof (cases "sz = 0")
  case True
  with m ok show ?thesis by (simp add: umm_malloc_def)
next
  case False
  from ok obtain S fl where v: "valid B h S fl" unfolding heap_ok_def by blast
  from False m have c: "umm_malloc_core B policy sz h = Some (h', p)" by (simp add: umm_malloc_def)
  from malloc_core_valid [OF B v, of policy sz] c
  have r: "case p of None \<Rightarrow> h' = h \<and> (\<forall>x\<in>set fl. nb B h x - x < umm_blocks B sz)
         | Some a \<Rightarrow> (\<exists>cf\<in>set fl. a = UMM_DATA B cf \<and> umm_blocks B sz \<le> nb B h cf - cf \<and>
            (if nb B h cf - cf = umm_blocks B sz
             then (\<exists>fl'. valid B h' S fl') \<and> nb B h' = nb B h \<and> is_free B h' = (is_free B h)(cf := False)
             else (\<exists>fl'. valid B h' (insert (cf + umm_blocks B sz) S) fl') \<and>
                  nb B h' = (nb B h)(cf + umm_blocks B sz := nb B h cf, cf := cf + umm_blocks B sz) \<and>
                  is_free B h' = (is_free B h)(cf + umm_blocks B sz := True, cf := False)))"
    by auto
  show ?thesis
  proof (cases p)
    case None
    with r ok show ?thesis by simp
  next
    case (Some a)
    with r obtain cf where "if nb B h cf - cf = umm_blocks B sz
             then (\<exists>fl'. valid B h' S fl') \<and> nb B h' = nb B h \<and> is_free B h' = (is_free B h)(cf := False)
             else (\<exists>fl'. valid B h' (insert (cf + umm_blocks B sz) S) fl') \<and>
                  nb B h' = (nb B h)(cf + umm_blocks B sz := nb B h cf, cf := cf + umm_blocks B sz) \<and>
                  is_free B h' = (is_free B h)(cf + umm_blocks B sz := True, cf := False)"
      by auto
    then show ?thesis unfolding heap_ok_def by (cases "nb B h cf - cf = umm_blocks B sz") auto
  qed
qed

lemma free_heap_ok:
  assumes B: "8 \<le> B" and ok: "heap_ok B h" and a: "allocated B h a"
  shows "heap_ok B (umm_free B (Some a) h)"
proof -
  from ok obtain S fl where v: "valid B h S fl" unfolding heap_ok_def by blast
  from v a obtain c where c: "c \<in> S" "a = UMM_DATA B c" "c \<noteq> 0" "c \<noteq> numblocks h - 1" "\<not> is_free B h c"
    by (rule allocatedD)
  from free_core_valid(1) [OF B v c(1,3,4,5)] show ?thesis
    unfolding heap_ok_def umm_free_def c(2) by auto
qed

lemma realloc_heap_ok:
  assumes B: "8 \<le> B" and ok: "heap_ok B h" and a: "allocated B h a"
    and r: "umm_realloc B policy (Some a) sz h = Some (h', p)"
  shows "heap_ok B h'"
proof (cases "sz = 0")
  case True
  with r have "h' = umm_free B (Some a) h" by (simp add: umm_realloc_def)
  with free_heap_ok [OF B ok a] show ?thesis by simp
next
  case False
  from ok obtain S fl where v: "valid B h S fl" unfolding heap_ok_def by blast
  from v a obtain c where c: "c \<in> S" "a = UMM_DATA B c" "c \<noteq> 0" "c \<noteq> numblocks h - 1" "\<not> is_free B h c"
    by (rule allocatedD)
  from realloc_valid [OF B v c(1,3,4,5) False, of policy] r show ?thesis
    unfolding heap_ok_def c(2) by auto
qed

lemma store_heap_ok:
  assumes B: "8 \<le> B" and ok: "heap_ok B h" and a: "allocated B h a" and k: "k < block_bytes B h a"
  shows "heap_ok B (h\<lparr>mem := (mem h)(a + k := v)\<rparr>)"
proof -
  from ok obtain S fl where v: "valid B h S fl" unfolding heap_ok_def by blast
  from v a obtain c where c: "c \<in> S" "a = UMM_DATA B c" "c \<noteq> 0" "c \<noteq> numblocks h - 1" "\<not> is_free B h c"
    by (rule allocatedD)
  have lt: "c < nb B h c" using valid_next(2) [OF v c(1,4)] .
  have k': "k < (nb B h c - c) * B - 4" using k B by (simp add: block_bytes_def c(2) data_div)
  have "c * B + (nb B h c - c) * B = nb B h c * B"
    using lt by (simp add: add_mult_distrib [symmetric])
  with k' have in_body: "c * B + 4 \<le> a + k" "a + k < nb B h c * B"
    by (simp_all add: c(2) UMM_DATA_def)
  have "valid B (h\<lparr>mem := (mem h)(a + k := v)\<rparr>) S fl"
    using B v c(1,3,4,5)
  proof (rule valid_frame(1))
    show "numblocks (h\<lparr>mem := (mem h)(a + k := v)\<rparr>) = numblocks h" by simp
    show "\<forall>x. x < c * B + 4 \<or> nb B h c * B \<le> x \<longrightarrow> mem (h\<lparr>mem := (mem h)(a + k := v)\<rparr>) x = mem h x"
      using in_body by auto
  qed
  then show ?thesis unfolding heap_ok_def by blast
qed

lemma reachable_heap_ok:
  assumes B: "8 \<le> B" and r: "reachable B policy h"
  shows "heap_ok B h"
  using r
proof (induction rule: reachable.induct)
  case (r_init m sz h)
  from init_heap_valid [OF B r_init] show ?case unfolding heap_ok_def by blast
next
  case (r_malloc h sz h' p)
  then show ?case using malloc_heap_ok [OF B] by blast
next
  case (r_free h a)
  then show ?case using free_heap_ok [OF B] by blast
next
  case (r_free_null h)
  then show ?case by (simp add: umm_free_def)
next
  case (r_realloc h a sz h' p)
  then show ?case using realloc_heap_ok [OF B] by blast
next
  case (r_realloc_null h sz h' p)
  then show ?case using malloc_heap_ok [OF B] by (auto simp: umm_realloc_def)
next
  case (r_store h a k v)
  then show ?case using store_heap_ok [OF B] by blast
qed

text \<open>The case analysis of \<^verbatim>\<open>umm_realloc\<close> over the block counts of a valid heap.\<close>

lemma realloc_core:
  fixes sz :: nat and policy :: fit
  assumes B: "8 \<le> B" and v: "valid B h S fl"
    and c: "c \<in> S" "c \<noteq> 0" "c \<noteq> numblocks h - 1" "\<not> is_free B h c"
    and sz: "sz \<noteq> 0"
  defines "a \<equiv> UMM_DATA B c" and "k \<equiv> umm_blocks B sz"
    and "n \<equiv> nb B h c" and "p \<equiv> UMM_PBLOCK B h c"
  defines "bsz \<equiv> n - c"
    and "nx \<equiv> (if is_free B h n then nb B h n - n else 0)"
    and "pv \<equiv> (if is_free B h p then c - p else 0)"
  defines "cur \<equiv> (bsz * B + 4294967296 - 4) mod 4294967296"
  defines "down \<equiv> (\<lambda>g. let h1 = umm_disconnect_from_free_list B (UMM_PBLOCK B g c) g;
                     r2 = umm_assimilate_down B c 0 h1;
                     h3 = (fst r2)\<lparr>mem := memmove (mem (fst r2)) (UMM_DATA B (snd r2)) a cur\<rparr>
                 in (r2, h3))"
  shows "umm_realloc B policy (Some a) sz h =
     (if bsz \<ge> k then Some (realloc_finish B k bsz c (Some a) h)
      else if bsz + nx = k then
        Some (realloc_finish B k (u16 (bsz + nx)) c (Some a) (umm_assimilate_up B c h))
      else if 0 = pv \<and> bsz + nx \<ge> k then
        Some (realloc_finish B k (u16 (bsz + nx)) c (Some a) (umm_assimilate_up B c h))
      else if pv + bsz \<ge> k then
        Some (realloc_finish B k (u16 (bsz + pv)) (snd (fst (down h)))
                (Some (UMM_DATA B (snd (fst (down h))))) (snd (down h)))
      else if pv + bsz + nx \<ge> k then
        Some (realloc_finish B k (u16 (bsz + u16 (pv + nx))) (snd (fst (down (umm_assimilate_up B c h))))
                (Some (UMM_DATA B (snd (fst (down (umm_assimilate_up B c h))))))
                (snd (down (umm_assimilate_up B c h))))
      else
        (case umm_malloc_core B policy sz h of
           None \<Rightarrow> None
         | Some (h1, None) \<Rightarrow> Some (realloc_finish B k k c None h1)
         | Some (h1, Some q) \<Rightarrow>
             Some (realloc_finish B k k c (Some q)
                     (umm_free_core B a (h1\<lparr>mem := memmove (mem h1) q a cur\<rparr>)))))"
proof -
  note q = realloc_quantities [OF B v c, folded n_def p_def]
  have szF: "(0 = sz) = False" using sz by simp
  have nx_eq: "(if is_free B h n then sub16 (nb B h n) n else 0) = nx" using q(5) by (simp add: nx_def)
  have pv_eq: "(if is_free B h p then sub16 c p else 0) = pv" using q(6) by (simp add: pv_def)
  show ?thesis
    unfolding realloc_alt option.case szF if_False Let_def split_beta
    unfolding q(1) [folded a_def]
    unfolding q(2) q(3) k_def [symmetric] p_def [symmetric] nx_eq pv_eq bsz_def [symmetric]
    unfolding down_def Let_def fst_conv snd_conv cur_def p_def [symmetric]
    by (rule refl)
qed

lemma malloc_core_none:
  "umm_malloc_core B policy sz h = Some (h1, None) \<Longrightarrow> h1 = h"
  by (auto simp: umm_malloc_core_def Let_def split: option.splits prod.splits if_splits)

lemma heap16_eq:
  "heap16 = set_PBLOCK 8 15 1 (set_NBLOCK 8 1 32783 (set_PFREE 8 0 1 (set_NFREE 8 0 1 (set_NBLOCK 8 0 1
     \<lparr>mem = memset zero_mem 0 0 128, heap_size = 128, numblocks = 16\<rparr>))))"
  by (simp add: heap16_def umm_init_heap_def Let_def u16_def UMM_FREELIST_MASK_def)

lemma base_views:
  "UMM_NBLOCK 8 \<lparr>mem = memset zero_mem 0 0 sz, heap_size = sz, numblocks = n\<rparr> = (\<lambda>_. 0)"
  "UMM_PBLOCK 8 \<lparr>mem = memset zero_mem 0 0 sz, heap_size = sz, numblocks = n\<rparr> = (\<lambda>_. 0)"
  "UMM_NFREE 8 \<lparr>mem = memset zero_mem 0 0 sz, heap_size = sz, numblocks = n\<rparr> = (\<lambda>_. 0)"
  "UMM_PFREE 8 \<lparr>mem = memset zero_mem 0 0 sz, heap_size = sz, numblocks = n\<rparr> = (\<lambda>_. 0)"
  by (simp_all add: fun_eq_iff UMM_NBLOCK_def UMM_PBLOCK_def UMM_NFREE_def UMM_PFREE_def rd16_zero
        memset_def zero_mem_def)

lemma heap16_views:
  "UMM_NBLOCK 8 heap16 = (\<lambda>_. 0)(0 := 1, 1 := 32783)"
  "UMM_PBLOCK 8 heap16 = (\<lambda>_. 0)(15 := 1)"
  "UMM_NFREE 8 heap16 = (\<lambda>_. 0)(0 := 1)"
  "UMM_PFREE 8 heap16 = (\<lambda>_. 0)(0 := 1)"
  "numblocks heap16 = 16"
  by (simp_all add: heap16_eq field_simps16 base_views u16_def)

lemmas eval_simps = Let_def field_simps16 sub16_def u16_def UMM_BLOCKNO_MASK_def UMM_FREELIST_MASK_def
  UMM_DATA_def umm_split_block_def umm_disconnect_from_free_list_def umm_assimilate_up_def
  umm_assimilate_down_def

lemma blocks20: "umm_blocks 8 20 = 3" "umm_blocks 8 4 = 1" "umm_blocks 8 200 = 26" "umm_blocks 8 2 = 1"
  by (simp_all add: umm_blocks_def u16_def)

lemma malloc20: "umm_malloc 8 UMM_BEST_FIT 20 heap16 = Some (heap16_a, Some 12)"
  unfolding heap16_a_def
  by (simp add: umm_malloc_def umm_malloc_core_def blocks20 heap16_views scan_free.simps eval_simps)

lemma heap16_a_form:
  "heap16_a = set_NFREE 8 4 0 (set_PFREE 8 0 4 (set_PFREE 8 4 0 (set_NFREE 8 0 4 (set_NBLOCK 8 1 4
     (set_PBLOCK 8 15 4 (set_PBLOCK 8 4 1 (set_NBLOCK 8 4 32783 heap16)))))))"
  unfolding heap16_a_def
  by (simp add: umm_malloc_def umm_malloc_core_def blocks20 heap16_views scan_free.simps eval_simps)

lemma heap16_a_views:
  "UMM_NBLOCK 8 heap16_a = (\<lambda>_. 0)(0 := 1, 1 := 4, 4 := 32783)"
  "UMM_PBLOCK 8 heap16_a = (\<lambda>_. 0)(15 := 4, 4 := 1)"
  "UMM_NFREE 8 heap16_a = (\<lambda>_. 0)(0 := 4)"
  "UMM_PFREE 8 heap16_a = (\<lambda>_. 0)(0 := 4)"
  "numblocks heap16_a = 16"
  by (auto simp: heap16_a_form field_simps16 heap16_views u16_def fun_eq_iff)

lemma heap16_init: "umm_init_heap 8 zero_mem 128 = Some heap16"
  by (simp add: heap16_def umm_init_heap_def Let_def u16_def)

lemma mask_vals:
  "(1::nat) AND 32767 = 1" "(4::nat) AND 32767 = 4" "(32783::nat) AND 32767 = 15" "(0::nat) AND 32767 = 0"
  "(1::nat) AND 32768 = 0" "(4::nat) AND 32768 = 0" "(32783::nat) AND 32768 = 32768" "(0::nat) AND 32768 = 0"
  by simp_all

lemma heap16_nb:
  "nb 8 heap16 0 = 1" "nb 8 heap16 1 = 15" "nb 8 heap16 15 = 0"
  "\<not> is_free 8 heap16 0" "is_free 8 heap16 1" "\<not> is_free 8 heap16 15"
  by (simp_all add: nb_def is_free_def heap16_views UMM_BLOCKNO_MASK_def UMM_FREELIST_MASK_def)

lemma heap16_a_nb:
  "nb 8 heap16_a 0 = 1" "nb 8 heap16_a 1 = 4" "nb 8 heap16_a 4 = 15" "nb 8 heap16_a 15 = 0"
  "\<not> is_free 8 heap16_a 0" "\<not> is_free 8 heap16_a 1" "is_free 8 heap16_a 4" "\<not> is_free 8 heap16_a 15"
  by (simp_all add: nb_def is_free_def heap16_a_views UMM_BLOCKNO_MASK_def UMM_FREELIST_MASK_def)

lemmas heap16_nb1 = heap16_nb [unfolded One_nat_def] heap16_a_nb [unfolded One_nat_def]

lemma heap16_chain: "0 \<in> chain 8 heap16" "1 \<in> chain 8 heap16" "15 \<in> chain 8 heap16"
proof -
  show c0: "0 \<in> chain 8 heap16" by (rule chain_head)
  from chain_next [OF c0] show c1: "1 \<in> chain 8 heap16" by (simp add: heap16_nb heap16_nb1)
  from chain_next [OF c1] show "15 \<in> chain 8 heap16" by (simp add: heap16_nb heap16_nb1)
qed

lemma heap16_a_chain:
  "0 \<in> chain 8 heap16_a" "1 \<in> chain 8 heap16_a" "4 \<in> chain 8 heap16_a" "15 \<in> chain 8 heap16_a"
proof -
  show c0: "0 \<in> chain 8 heap16_a" by (rule chain_head)
  from chain_next [OF c0] show c1: "1 \<in> chain 8 heap16_a" by (simp add: heap16_a_nb heap16_nb1)
  from chain_next [OF c1] show c4: "4 \<in> chain 8 heap16_a" by (simp add: heap16_a_nb heap16_nb1)
  from chain_next [OF c4] show "15 \<in> chain 8 heap16_a" by (simp add: heap16_a_nb heap16_nb1)
qed

lemma heap16_reachable: "reachable 8 policy heap16"
  using heap16_init by (rule r_init) (simp_all add: heap16_views)

lemma heap16_a_reachable: "reachable 8 UMM_BEST_FIT heap16_a"
  using heap16_reachable malloc20 by (rule r_malloc)

lemma heap16_a_allocated: "allocated 8 heap16_a 12"
  unfolding allocated_def
  by (rule bexI [OF _ heap16_a_chain(2)]) (simp add: UMM_DATA_def heap16_a_views heap16_nb1)

lemma malloc200_fails: "umm_malloc_core 8 UMM_BEST_FIT 200 heap16_a = Some (heap16_a, None)"
  by (simp add: umm_malloc_core_def blocks20 heap16_a_views scan_free.simps eval_simps)

lemma heap2_init: "umm_init_heap 8 zero_mem 16 = Some heap2"
  by (simp add: heap2_def umm_init_heap_def Let_def u16_def)

lemma heap2_eq:
  "heap2 = set_PBLOCK 8 1 1 (set_NBLOCK 8 1 32769 (set_PFREE 8 0 1 (set_NFREE 8 0 1 (set_NBLOCK 8 0 1
     \<lparr>mem = memset zero_mem 0 0 16, heap_size = 16, numblocks = 2\<rparr>))))"
  by (simp add: heap2_def umm_init_heap_def Let_def u16_def UMM_FREELIST_MASK_def)

lemma heap2_views:
  "UMM_NBLOCK 8 heap2 = (\<lambda>_. 0)(0 := 1, 1 := 32769)"
  "UMM_PBLOCK 8 heap2 = (\<lambda>_. 0)(1 := 1)"
  "UMM_NFREE 8 heap2 = (\<lambda>_. 0)(0 := 1)"
  "UMM_PFREE 8 heap2 = (\<lambda>_. 0)(0 := 1)"
  "numblocks heap2 = 2"
  by (simp_all add: heap2_eq field_simps16 base_views u16_def)

lemma heap2_chain: "1 \<in> chain 8 heap2"
proof -
  have "nb 8 heap2 0 = 1" by (simp add: nb_def heap2_views UMM_BLOCKNO_MASK_def)
  with chain_next [OF chain_head, of 8 heap2] show ?thesis by simp
qed

section \<open>No two adjacent free blocks\<close>

text \<open>
  Claim C1, the counterexample. \<^verbatim>\<open>umm_init_heap\<close> checks no lower bound on the size: a
  region of 16 bytes with blocks of 8 bytes has two blocks, and the initialisation writes
  \<open>1 | 0x8000\<close> into \<open>next_block\<close> of block 1. Block 1 is in the chain, free, and its own
  successor, and it stays so after \<^verbatim>\<open>umm_malloc(1)\<close>, which returns \<^verbatim>\<open>NULL\<close> and leaves the heap
  as it is.
\<close>

theorem adjacent_free_blocks_counterexample:
  "umm_init_heap 8 zero_mem 16 = Some heap2 \<and> numblocks heap2 = 2 \<and> 1 \<in> chain 8 heap2 \<and>
   UMM_NBLOCK 8 heap2 1 AND UMM_FREELIST_MASK \<noteq> 0 \<and>
   UMM_NBLOCK 8 heap2 1 AND UMM_BLOCKNO_MASK = 1 \<and>
   umm_malloc 8 UMM_BEST_FIT 1 heap2 = Some (heap2, None) \<and>
   umm_malloc 8 UMM_FIRST_FIT 1 heap2 = Some (heap2, None)"
  using heap2_init heap2_chain
  by (simp add: heap2_views UMM_FREELIST_MASK_def UMM_BLOCKNO_MASK_def umm_malloc_def
        umm_malloc_core_def umm_blocks_def scan_free.simps sub16_def Let_def)

text \<open>
  Claim C1, amended. In every heap state reached from \<^verbatim>\<open>umm_init_heap\<close> of a region of at least
  3 (and at most 32767) blocks by allocate, free and reallocate (and stores of the caller
  into live allocations), a block \<open>i\<close> of the chain whose \<open>next_block\<close> field carries the free
  mask is followed by a block, at the index its \<open>next_block\<close> field gives under the index
  mask, whose field does not carry the free mask. The bounds on the number of blocks are
  those of rule \<open>r_init\<close> of \<open>reachable\<close>.
\<close>

theorem no_adjacent_free_blocks:
  assumes "8 \<le> B" and "reachable B policy h" and "i \<in> chain B h"
    and "UMM_NBLOCK B h i AND UMM_FREELIST_MASK \<noteq> 0"
  shows "UMM_NBLOCK B h (UMM_NBLOCK B h i AND UMM_BLOCKNO_MASK) AND UMM_FREELIST_MASK = 0"
proof -
  from reachable_heap_ok [OF assms(1,2)] obtain S fl where v: "valid B h S fl"
    unfolding heap_ok_def by blast
  from assms(3) have "i \<in> S" unfolding valid_chain [OF v] .
  moreover from assms(4) have "is_free B h i" by (simp add: is_free_def)
  ultimately have "\<not> is_free B h (nb B h i)" by (rule valid_free(4) [OF v])
  then show ?thesis by (simp add: is_free_def nb_def)
qed

theorem no_adjacent_free_blocks_witness:
  "reachable 8 UMM_BEST_FIT heap16_a \<and> 4 \<in> chain 8 heap16_a \<and>
   UMM_NBLOCK 8 heap16_a 4 AND UMM_FREELIST_MASK \<noteq> 0 \<and>
   UMM_NBLOCK 8 heap16_a 4 AND UMM_BLOCKNO_MASK = 15 \<and>
   UMM_NBLOCK 8 heap16_a 15 AND UMM_FREELIST_MASK = 0"
  using no_adjacent_free_blocks [of 8 UMM_BEST_FIT heap16_a 4] heap16_a_reachable heap16_a_chain(3)
  by (simp add: heap16_a_views UMM_FREELIST_MASK_def UMM_BLOCKNO_MASK_def)

section \<open>Zero sizes and null pointers\<close>

text \<open>
  Claim C5. \<^verbatim>\<open>umm_malloc(0)\<close> and \<^verbatim>\<open>umm_calloc(0, item_size)\<close> return \<^verbatim>\<open>NULL\<close> and leave the
  heap as it is; \<^verbatim>\<open>umm_realloc(p, 0)\<close> with \<open>p\<close> not \<^verbatim>\<open>NULL\<close> does what \<^verbatim>\<open>umm_free(p)\<close> does
  and returns \<^verbatim>\<open>NULL\<close>; \<^verbatim>\<open>umm_free(NULL)\<close> does nothing; \<^verbatim>\<open>umm_realloc(NULL, s)\<close> is
  \<^verbatim>\<open>umm_malloc(s)\<close>.
\<close>

theorem zero_size_and_null_pointer:
  "umm_malloc B policy 0 h = Some (h, None) \<and>
   umm_calloc B policy 0 item_size h = Some (h, None) \<and>
   umm_realloc B policy (Some a) 0 h = Some (umm_free B (Some a) h, None) \<and>
   umm_free B None h = h \<and>
   umm_realloc B policy None sz h = umm_malloc B policy sz h"
  by (simp add: umm_malloc_def umm_calloc_def umm_realloc_def umm_free_def)

section \<open>Reallocate keeps the block when the fresh allocation fails\<close>

text \<open>
  Claim C2. Let \<open>a\<close> be a live allocation of a valid heap and \<open>sz\<close> a size other than 0 that
  none of the in-place cases of \<^verbatim>\<open>umm_realloc\<close> fits: the blocks of the allocation, of a free
  predecessor and of a free successor together are fewer than \<open>umm_blocks sz\<close>. If the fresh
  allocation \<^verbatim>\<open>umm_malloc_core(sz)\<close> returns \<^verbatim>\<open>NULL\<close>, then \<^verbatim>\<open>umm_realloc\<close> returns \<^verbatim>\<open>NULL\<close>
  and the heap after the call is the heap before it: every byte and every header is as it
  was, so \<open>a\<close> is still the live allocation it was, with its contents.
\<close>

theorem realloc_failure_keeps_heap:
  assumes "8 \<le> B" and "heap_ok B h" and "allocated B h a" and "sz \<noteq> 0"
    and "(if is_free B h (UMM_PBLOCK B h (a div B)) then a div B - UMM_PBLOCK B h (a div B) else 0)
          + (nb B h (a div B) - a div B)
          + (if is_free B h (nb B h (a div B)) then nb B h (nb B h (a div B)) - nb B h (a div B) else 0)
          < umm_blocks B sz"
    and "umm_malloc_core B policy sz h = Some (h1, None)"
  shows "umm_realloc B policy (Some a) sz h = Some (h, None) \<and> allocated B h a"
proof -
  from assms(2) obtain S fl where v: "valid B h S fl" unfolding heap_ok_def by blast
  from v assms(3) obtain c where c: "c \<in> S" "a = UMM_DATA B c" "c \<noteq> 0" "c \<noteq> numblocks h - 1"
    "\<not> is_free B h c"
    by (rule allocatedD)
  have d: "a div B = c" using assms(1) by (simp add: c(2) data_div)
  have h1: "h1 = h" using assms(6) by (rule malloc_core_none)
  note core = realloc_core [OF assms(1) v c(1,3,4,5) assms(4), of policy, folded c(2)]
  have "umm_realloc B policy (Some a) sz h = Some (realloc_finish B (umm_blocks B sz) (umm_blocks B sz) c None h)"
    unfolding core using assms(5,6) unfolding d h1 by (simp split: if_splits)
  then show ?thesis using assms(3) by (simp add: realloc_finish_def)
qed

theorem realloc_failure_keeps_heap_witness:
  "heap_ok 8 heap16_a \<and> allocated 8 heap16_a 12 \<and>
   umm_malloc_core 8 UMM_BEST_FIT 200 heap16_a = Some (heap16_a, None) \<and>
   umm_realloc 8 UMM_BEST_FIT (Some 12) 200 heap16_a = Some (heap16_a, None)"
  using realloc_failure_keeps_heap [of 8 heap16_a 12 200 UMM_BEST_FIT heap16_a]
    reachable_heap_ok [OF _ heap16_a_reachable] heap16_a_allocated malloc200_fails
  by (simp add: heap16_a_views heap16_a_nb heap16_nb1 blocks20)

section \<open>Zero-allocate with a product that wraps\<close>


section \<open>Initialise, then introspect\<close>

lemma sqrt_floor_bounds:
  "sqrt_floor n * sqrt_floor n \<le> n \<and> n < (sqrt_floor n + 1) * (sqrt_floor n + 1)"
proof (induction n rule: sqrt_floor.induct)
  case (1 n)
  show ?case
  proof (cases "n < 4")
    case True
    then have "sqrt_floor n = (if n = 0 then 0 else 1)" by (subst sqrt_floor.simps) simp
    with True show ?thesis by (cases "n = 0") simp_all
  next
    case False
    define r0 where "r0 = sqrt_floor (n div 4)"
    from 1 [OF False] have ih: "r0 * r0 \<le> n div 4" "n div 4 < (r0 + 1) * (r0 + 1)"
      by (simp_all add: r0_def)
    have eq: "sqrt_floor n = (if (2 * r0 + 1) * (2 * r0 + 1) \<le> n then 2 * r0 + 1 else 2 * r0)"
      by (subst sqrt_floor.simps) (simp add: False Let_def r0_def)
    have "4 * (r0 * r0) \<le> 4 * (n div 4)" using ih(1) by simp
    then have a: "(2 * r0) * (2 * r0) \<le> n" by simp
    have "n div 4 + 1 \<le> (r0 + 1) * (r0 + 1)" using ih(2) by simp
    then have "4 * (n div 4) + 4 \<le> 4 * ((r0 + 1) * (r0 + 1))" by simp
    moreover have "n < 4 * (n div 4) + 4" by simp
    moreover have "4 * ((r0 + 1) * (r0 + 1)) = (2 * r0 + 1 + 1) * (2 * r0 + 1 + 1)"
      by (simp add: algebra_simps)
    ultimately have b: "n < (2 * r0 + 1 + 1) * (2 * r0 + 1 + 1)" by linarith
    show ?thesis
    proof (cases "(2 * r0 + 1) * (2 * r0 + 1) \<le> n")
      case True
      with b show ?thesis unfolding eq by simp
    next
      case False
      with a show ?thesis unfolding eq by simp
    qed
  qed
qed

lemma sqrt_floor_unique:
  assumes "r * r \<le> n" and "n < (r + 1) * (r + 1)"
  shows "sqrt_floor n = r"
proof (rule ccontr)
  let ?s = "sqrt_floor n"
  note b = sqrt_floor_bounds [of n]
  assume "?s \<noteq> r"
  then consider "?s + 1 \<le> r" | "r + 1 \<le> ?s" by linarith
  then show False
  proof cases
    case 1
    from mult_le_mono [OF this this] have "(?s + 1) * (?s + 1) \<le> r * r" .
    with b assms(1) show False by linarith
  next
    case 2
    from mult_le_mono [OF this this] have "(r + 1) * (r + 1) \<le> ?s * ?s" .
    with b assms(2) show False by linarith
  qed
qed

lemma sqrtf_196: "sqrtf_u32 (float_of_u32 196) = 14"
proof -
  have f: "float_of_u32 196 = 196" by (simp add: float_of_u32_def)
  have r: "sqrt_floor 196 = 14" by (rule sqrt_floor_unique) simp_all
  have l: "floorlog2 14 = 3" by (simp add: floorlog2.simps)
  have m: "(196::nat) * 4 ^ (23 - 3 + 1) = 862017116176384" by simp
  have q: "sqrt_floor 862017116176384 = 29360128" by (rule sqrt_floor_unique) simp_all
  show ?thesis unfolding f sqrtf_u32_def r l Let_def m q by simp
qed

lemma init128_views:
  assumes "umm_init_heap 8 m 128 = Some h"
  shows "numblocks h = 16"
    and "UMM_NBLOCK 8 h 0 = 1" "UMM_NBLOCK 8 h 1 = 32783" "UMM_NBLOCK 8 h 15 = 0"
proof -
  show n: "numblocks h = 16" using assms by (auto simp: umm_init_heap_def Let_def u16_def)
  note vw = init_heap_views(1) [OF _ assms, unfolded n]
  show "UMM_NBLOCK 8 h 0 = 1" "UMM_NBLOCK 8 h 1 = 32783" "UMM_NBLOCK 8 h 15 = 0"
    using vw by simp_all
qed

lemma init128_info:
  assumes "umm_init_heap 8 m 128 = Some h"
  shows "umm_info 8 None h =
     Some (\<lparr>totalEntries = 1, usedEntries = 0, freeEntries = 1, totalBlocks = 14,
       usedBlocks = 0, freeBlocks = 14, freeBlocksSquared = 196, maxFreeContiguousBlocks = 14,
       usage_metric = 0, fragmentation_metric = 0\<rparr>, None)"
  using init128_views [OF assms] init128_views(3) [OF assms, unfolded One_nat_def]
  by (simp add: umm_info_def info_loop.simps info_zero_def Let_def UMM_BLOCKNO_MASK_def
        UMM_FREELIST_MASK_def compute_usage_metric_def compute_fragmentation_metric_def sqrtf_196 u32_def int_of_u32_def)

lemma init128_free_runs:
  assumes "umm_init_heap 8 m 128 = Some h"
  shows "free_runs 8 h = {(1, 14)}"
proof -
  note n = init128_views [OF assms]
  have v: "valid 8 h {0, 1, 15} [1]"
    using init_heap_valid [OF _ assms] by (simp add: n)
  have nb: "nb 8 h 1 = 15" "is_free 8 h 1" "\<not> is_free 8 h 0" "\<not> is_free 8 h 15"
    by (simp_all add: nb_def is_free_def n n(3) [unfolded One_nat_def] UMM_BLOCKNO_MASK_def
          UMM_FREELIST_MASK_def)
  show ?thesis unfolding free_runs_def valid_chain [OF v] using nb by auto
qed

text \<open>
  Claim C8, the counterexample: after \<^verbatim>\<open>umm_init_heap\<close> of 128 bytes with blocks of 8 bytes
  the usage metric is 0, not \<open>-1\<close>.
\<close>

theorem usage_metric_after_init_counterexample:
  "umm_init_heap 8 zero_mem 128 = Some heap16 \<and> umm_usage_metric 8 heap16 = Some 0 \<and>
   umm_usage_metric 8 heap16 \<noteq> Some (- 1)"
  using init128_info [OF heap16_init] heap16_init by (simp add: umm_usage_metric_def)

text \<open>
  Claim C8, amended. With blocks of 8 bytes and a region of 128 bytes (16 blocks), right after
  \<^verbatim>\<open>umm_init_heap\<close> the heap has exactly one free run, of the 14 blocks 1 to 14;
  \<^verbatim>\<open>umm_free_heap_size\<close> returns 112, the fragmentation metric is 0 and the usage metric is
  0 (no block is used and 14 are free).
\<close>

theorem init_then_introspect:
  assumes "umm_init_heap 8 m 128 = Some h"
  shows "numblocks h = 16 \<and> free_runs 8 h = {(1, 14)} \<and> umm_free_heap_size 8 h = Some 112 \<and>
         umm_fragmentation_metric 8 h = Some 0 \<and> umm_usage_metric 8 h = Some 0"
  using init128_info [OF assms] init128_free_runs [OF assms] init128_views(1) [OF assms]
  by (simp add: umm_free_heap_size_def umm_fragmentation_metric_def umm_usage_metric_def)

theorem init_then_introspect_witness:
  "umm_init_heap 8 zero_mem 128 = Some heap16 \<and>
   numblocks heap16 = 16 \<and> free_runs 8 heap16 = {(1, 14)} \<and> umm_free_heap_size 8 heap16 = Some 112 \<and>
   umm_fragmentation_metric 8 heap16 = Some 0 \<and> umm_usage_metric 8 heap16 = Some 0"
  using init_then_introspect [OF heap16_init] heap16_init by simp

section \<open>What a successful allocation leaves\<close>

lemma malloc_success:
  fixes sz :: nat and policy :: fit
  assumes B: "8 \<le> B" and v: "valid B h S fl"
    and m: "umm_malloc_core B policy sz h = Some (h1, Some a)"
  defines "k \<equiv> umm_blocks B sz"
  shows "\<exists>cf fl1. cf \<in> set fl \<and> a = UMM_DATA B cf \<and> k \<le> nb B h cf - cf \<and>
           valid B h1 (if nb B h cf - cf = k then S else insert (cf + k) S) fl1 \<and>
           nb B h1 = (if nb B h cf - cf = k then nb B h
                      else (nb B h)(cf + k := nb B h cf, cf := cf + k)) \<and>
           is_free B h1 = (if nb B h cf - cf = k then (is_free B h)(cf := False)
                           else (is_free B h)(cf + k := True, cf := False)) \<and>
           numblocks h1 = numblocks h \<and> (nb B h cf - cf \<noteq> k \<longrightarrow> cf + k \<notin> S)"
proof -
  from malloc_core_valid [OF B v, of policy sz] m
  have num: "numblocks h1 = numblocks h"
    and "\<exists>cf\<in>set fl. a = UMM_DATA B cf \<and> k \<le> nb B h cf - cf \<and>
            (if nb B h cf - cf = k
             then (\<exists>fl'. valid B h1 S fl') \<and> nb B h1 = nb B h \<and> is_free B h1 = (is_free B h)(cf := False)
             else (\<exists>fl'. valid B h1 (insert (cf + k) S) fl') \<and>
                  nb B h1 = (nb B h)(cf + k := nb B h cf, cf := cf + k) \<and>
                  is_free B h1 = (is_free B h)(cf + k := True, cf := False))"
    unfolding k_def by auto
  then obtain cf where cf: "cf \<in> set fl" "a = UMM_DATA B cf" "k \<le> nb B h cf - cf"
    and alt: "if nb B h cf - cf = k
             then (\<exists>fl'. valid B h1 S fl') \<and> nb B h1 = nb B h \<and> is_free B h1 = (is_free B h)(cf := False)
             else (\<exists>fl'. valid B h1 (insert (cf + k) S) fl') \<and>
                  nb B h1 = (nb B h)(cf + k := nb B h cf, cf := cf + k) \<and>
                  is_free B h1 = (is_free B h)(cf + k := True, cf := False)"
    by blast
  have k1: "1 \<le> k" unfolding k_def using B by (rule umm_blocks_ge1)
  note f = valid_free_size [OF v cf(1)]
  have notin: "cf + k \<notin> S" if "nb B h cf - cf \<noteq> k"
    using valid_parts(1) [OF v] f(1) by (rule chain_ok_split_notin) (use that cf(3) k1 in simp_all)
  show ?thesis
  proof (cases "nb B h cf - cf = k")
    case True
    with alt obtain fl1 where "valid B h1 S fl1" by auto
    with True alt cf num show ?thesis by (intro exI [of _ cf] exI [of _ fl1]) simp
  next
    case False
    with alt obtain fl1 where "valid B h1 (insert (cf + k) S) fl1" by auto
    with False alt cf num notin show ?thesis by (intro exI [of _ cf] exI [of _ fl1]) simp
  qed
qed

lemma umm_blocks_fits:
  assumes B: "8 \<le> B" and k: "umm_blocks B sz < 32767"
  shows "sz \<le> umm_blocks B sz * B - 4"
proof (cases "sz \<le> B - 4")
  case True
  then show ?thesis by (simp add: umm_blocks_closed [OF B])
next
  case False
  define r where "r = sz - (B - 4) - 1"
  have sz: "sz = r + 1 + (B - 4)" using False by (simp add: r_def)
  from k False have e: "umm_blocks B sz = r div B + 2"
    by (simp add: umm_blocks_closed [OF B] r_def min_def split: if_splits)
  have "r < (r div B + 1) * B" using B by (simp add: dividend_less_times_div mult.commute)
  then have "r + 1 \<le> (r div B + 1) * B" by simp
  moreover have "(r div B + 2) * B = (r div B + 1) * B + B" by (simp add: algebra_simps)
  ultimately have "r + 1 + (B - 4) \<le> (r div B + 2) * B - 4" using B by linarith
  then have "sz \<le> (r div B + 2) * B - 4" by (simp only: sz [symmetric])
  then show ?thesis by (simp only: e)
qed

section \<open>Allocate, then free\<close>

text \<open>
  Claim C3. In a heap that satisfies the invariants, when \<^verbatim>\<open>umm_malloc(sz)\<close> returns a
  pointer, \<^verbatim>\<open>umm_free\<close> of that pointer gives a heap with the free runs (start index and
  length of every free block of the chain) the heap had before the allocation. The order of
  the free list is not part of the free runs.
\<close>

theorem free_after_malloc_restores_free_runs:
  assumes "8 \<le> B" and "heap_ok B h" and "umm_malloc B policy sz h = Some (h1, Some a)"
  shows "free_runs B (umm_free B (Some a) h1) = free_runs B h"
proof -
  note B = assms(1)
  from assms(2) obtain S fl where v: "valid B h S fl" unfolding heap_ok_def by blast
  from assms(3) have m: "umm_malloc_core B policy sz h = Some (h1, Some a)"
    by (simp add: umm_malloc_def split: if_splits)
  define k where "k = umm_blocks B sz"
  from malloc_success [OF B v m, folded k_def]
  obtain cf fl1 where cf: "cf \<in> set fl" "a = UMM_DATA B cf" "k \<le> nb B h cf - cf"
    and v1: "valid B h1 (if nb B h cf - cf = k then S else insert (cf + k) S) fl1"
    and nb1: "nb B h1 = (if nb B h cf - cf = k then nb B h
                      else (nb B h)(cf + k := nb B h cf, cf := cf + k))"
    and fr1: "is_free B h1 = (if nb B h cf - cf = k then (is_free B h)(cf := False)
                           else (is_free B h)(cf + k := True, cf := False))"
    and num: "numblocks h1 = numblocks h"
    and notin: "nb B h cf - cf \<noteq> k \<longrightarrow> cf + k \<notin> S"
    by blast
  define S1 where "S1 = (if nb B h cf - cf = k then S else insert (cf + k) S)"
  note v1' = v1 [folded S1_def]
  note f = valid_free_size [OF v cf(1)]
  have k1: "1 \<le> k" unfolding k_def using B by (rule umm_blocks_ge1)
  have c1: "cf \<in> S1" "cf \<noteq> numblocks h1 - 1" "\<not> is_free B h1 cf"
    using f(1,4) k1 by (simp_all add: S1_def num fr1)
  have n1: "nb B h1 cf = cf + k" using f(5) by (auto simp: nb1)
  define p where "p = UMM_PBLOCK B h1 cf"
  note pr = valid_pred [OF v1' c1(1) f(3), folded p_def]
  have pS: "p \<in> S" using pr(1,2) by (auto simp: S1_def split: if_splits)
  have "nb B h p = cf" "is_free B h1 p = is_free B h p"
    using pr(2,3) by (auto simp: nb1 fr1 split: if_splits)
  with valid_free(4) [OF v pS] f(2) have pfree: "\<not> is_free B h1 p" by auto
  have nfree: "is_free B h1 (cf + k) \<longleftrightarrow> nb B h cf - cf \<noteq> k"
  proof (cases "nb B h cf - cf = k")
    case True
    then have "cf + k = nb B h cf" using f(5) by simp
    with valid_free(4) [OF v f(1,2)] True k1 show ?thesis by (simp add: fr1)
  next
    case False
    with k1 show ?thesis by (simp add: fr1)
  qed
  define h2 where "h2 = umm_free_core B (UMM_DATA B cf) h1"
  note fc = free_core_valid [OF B v1' c1(1) f(3) c1(2,3), folded h2_def p_def, unfolded n1]
  have S': "S1 - (if is_free B h1 (cf + k) then {cf + k} else {}) - (if is_free B h1 p then {cf} else {}) = S"
    using notin by (auto simp: pfree nfree S1_def)
  from fc(1) [unfolded S'] obtain fl2 where v2: "valid B h2 S fl2" by blast
  have at: "nb B h2 cf = nb B h cf" "is_free B h2 cf = is_free B h cf"
    using fc(4,5) f(2,5) k1 by (auto simp: pfree nfree nb1)
  have other: "nb B h2 i = nb B h i \<and> is_free B h2 i = is_free B h i" if "i \<in> S" "i \<noteq> cf" for i
  proof -
    from that notin have "nb B h1 i = nb B h i" "is_free B h1 i = is_free B h i"
      by (auto simp: nb1 fr1)
    with fc(6) [unfolded S'] that show ?thesis by (simp add: pfree)
  qed
  have same: "nb B h2 i = nb B h i \<and> is_free B h2 i = is_free B h i" if "i \<in> S" for i
    using at other [OF that] by (cases "i = cf") simp_all
  have "free_runs B h2 = free_runs B h"
    unfolding free_runs_def valid_chain [OF v2] valid_chain [OF v] using same by auto
  then show ?thesis by (simp add: umm_free_def cf(2) h2_def)
qed

theorem free_after_malloc_restores_free_runs_witness:
  "heap_ok 8 heap16 \<and> umm_malloc 8 UMM_BEST_FIT 20 heap16 = Some (heap16_a, Some 12) \<and>
   free_runs 8 (umm_free 8 (Some 12) heap16_a) = free_runs 8 heap16 \<and>
   free_runs 8 heap16 = {(1, 14)}"
  using free_after_malloc_restores_free_runs [OF _ reachable_heap_ok [OF _ heap16_reachable] malloc20]
    reachable_heap_ok [OF _ heap16_reachable] malloc20 init128_free_runs [OF heap16_init]
  by simp

section \<open>What allocate returns\<close>

lemma free_runs_valid:
  assumes v: "valid B h S fl"
  shows "free_runs B h = {(i, nb B h i - i) |i. i \<in> set fl}"
  unfolding free_runs_def valid_chain [OF v] using valid_free(1) [OF v] by auto

text \<open>
  Claim C7, the counterexample. Addresses are byte offsets from the start of the heap, which
  is the address of block 0. In the example heap \<^verbatim>\<open>umm_malloc(20)\<close> returns offset 12, the body
  of block 1: with blocks of 8 bytes that is 4 past a multiple of the block size, not a
  multiple of it.
\<close>

theorem malloc_alignment_counterexample:
  "umm_malloc 8 UMM_BEST_FIT 20 heap16 = Some (heap16_a, Some 12) \<and> (12::nat) mod 8 = 4 \<and>
   (12::nat) mod 8 \<noteq> 0"
  using malloc20 by simp

text \<open>
  Claim C7, amended. On a heap that satisfies the invariants, \<^verbatim>\<open>umm_malloc(sz)\<close> with
  \<open>sz > 0\<close> returns. It returns \<^verbatim>\<open>NULL\<close>, leaving the heap as it is, when no free run has
  \<open>umm_blocks sz\<close> blocks or more. Otherwise it returns the address \<open>c * B + 4\<close> of the body of
  a block \<open>c\<close> that started a free run of at least that many blocks: the address of the
  block plus the 4-byte used-header, so 4 past a multiple of \<open>B\<close> (not a multiple of it);
  after the call it is a live allocation whose body has at least \<open>sz\<close> bytes.
\<close>

theorem malloc_returns_block_body:
  assumes "8 \<le> B" and "heap_ok B h" and "sz \<noteq> 0"
  shows "\<exists>h' r. umm_malloc B policy sz h = Some (h', r) \<and>
     (case r of
        None \<Rightarrow> h' = h \<and> \<not> (\<exists>(c, n) \<in> free_runs B h. umm_blocks B sz \<le> n)
      | Some a \<Rightarrow>
          (\<exists>(c, n) \<in> free_runs B h. umm_blocks B sz \<le> n \<and> a = c * B + 4) \<and>
          a mod B = 4 \<and> allocated B h' a \<and> sz \<le> block_bytes B h' a)"
proof -
  note B = assms(1)
  from assms(2) obtain S fl where v: "valid B h S fl" unfolding heap_ok_def by blast
  define k where "k = umm_blocks B sz"
  note fr = free_runs_valid [OF v]
  from malloc_core_valid [OF B v, of policy sz]
  obtain h' r where m: "umm_malloc_core B policy sz h = Some (h', r)"
    and post: "case r of None \<Rightarrow> h' = h \<and> (\<forall>x\<in>set fl. nb B h x - x < k)
         | Some a \<Rightarrow> True"
    unfolding k_def by (auto split: option.splits)
  have mm: "umm_malloc B policy sz h = Some (h', r)" using m assms(3) by (simp add: umm_malloc_def)
  show ?thesis
  proof (cases r)
    case None
    with post have "h' = h" and small: "\<forall>x\<in>set fl. nb B h x - x < k" by simp_all
    from small have "\<not> (\<exists>(c, n) \<in> free_runs B h. k \<le> n)" unfolding fr by auto
    with mm None \<open>h' = h\<close> show ?thesis unfolding k_def by auto
  next
    case (Some a)
    from malloc_success [OF B v m [unfolded Some], folded k_def]
    obtain cf fl1 where cf: "cf \<in> set fl" "a = UMM_DATA B cf" "k \<le> nb B h cf - cf"
      and v1: "valid B h' (if nb B h cf - cf = k then S else insert (cf + k) S) fl1"
      and nb1: "nb B h' = (if nb B h cf - cf = k then nb B h
                      else (nb B h)(cf + k := nb B h cf, cf := cf + k))"
      and fr1: "is_free B h' = (if nb B h cf - cf = k then (is_free B h)(cf := False)
                           else (is_free B h)(cf + k := True, cf := False))"
      and num: "numblocks h' = numblocks h"
      by blast
    note f = valid_free_size [OF v cf(1)]
    have k1: "1 \<le> k" unfolding k_def using B by (rule umm_blocks_ge1)
    have run: "\<exists>(c, n) \<in> free_runs B h. k \<le> n \<and> a = c * B + 4"
      unfolding fr using cf by (auto simp: UMM_DATA_def)
    have al: "a mod B = 4" using B by (simp add: cf(2) UMM_DATA_def)
    have n1: "nb B h' cf = cf + k" using f(5) by (auto simp: nb1)
    have "cf \<in> chain B h'" unfolding valid_chain [OF v1] using f(1) by simp
    moreover have "\<not> is_free B h' cf" using k1 by (simp add: fr1)
    ultimately have live: "allocated B h' a"
      unfolding allocated_def using f(3,4) cf(2) num by auto
    have "k < 32767" using cf(3) f(7) by simp
    then have "sz \<le> k * B - 4" unfolding k_def by (rule umm_blocks_fits [OF B])
    then have bytes: "sz \<le> block_bytes B h' a"
      using B by (simp add: block_bytes_def cf(2) data_div n1)
    from mm Some run al live bytes show ?thesis unfolding k_def by auto
  qed
qed

theorem malloc_returns_block_body_witness:
  "heap_ok 8 heap16 \<and>
   (\<exists>h' r. umm_malloc 8 UMM_BEST_FIT 20 heap16 = Some (h', r) \<and>
     (case r of
        None \<Rightarrow> h' = heap16 \<and> \<not> (\<exists>(c, n) \<in> free_runs 8 heap16. umm_blocks 8 20 \<le> n)
      | Some a \<Rightarrow>
          (\<exists>(c, n) \<in> free_runs 8 heap16. umm_blocks 8 20 \<le> n \<and> a = c * 8 + 4) \<and>
          a mod 8 = 4 \<and> allocated 8 h' a \<and> 20 \<le> block_bytes 8 h' a)) \<and>
   umm_malloc 8 UMM_BEST_FIT 20 heap16 = Some (heap16_a, Some 12)"
  using malloc_returns_block_body [of 8 heap16 20 UMM_BEST_FIT]
    reachable_heap_ok [OF _ heap16_reachable] malloc20
  by simp

section \<open>The pointer \<^verbatim>\<open>umm_info\<close> returns\<close>

text \<open>
  On a valid heap the loop of \<^verbatim>\<open>umm_info\<close> ends from every block of the chain; it is left by
  \<^verbatim>\<open>return ptr\<close> when the probe is the header address of a free block at or after it.
\<close>

lemma info_loop_alt:
  "info_loop B h p blockNo i =
     (if nb B h blockNo \<noteq> 0 then
        (let curBlocks = (nb B h blockNo + 4294967296 - blockNo) mod 4294967296;
             i1 = i\<lparr>totalEntries := u32 (totalEntries i + 1),
                    totalBlocks := u32 (totalBlocks i + curBlocks)\<rparr>
         in if is_free B h blockNo then
              (let i2 = i1\<lparr>freeEntries := u32 (freeEntries i1 + 1),
                           freeBlocks := u32 (freeBlocks i1 + curBlocks),
                           freeBlocksSquared := u32 (freeBlocksSquared i1 + u32 (curBlocks * curBlocks))\<rparr>;
                   i3 = (if maxFreeContiguousBlocks i2 < curBlocks
                         then i2\<lparr>maxFreeContiguousBlocks := curBlocks\<rparr> else i2)
               in if p = Some (blockNo * B) then Some (i3, True)
                  else info_loop B h p (nb B h blockNo) i3)
            else
              info_loop B h p (nb B h blockNo)
                (i1\<lparr>usedEntries := u32 (usedEntries i1 + 1),
                    usedBlocks := u32 (usedBlocks i1 + curBlocks)\<rparr>))
      else Some (i, False))"
  unfolding nb_def is_free_def by (rule info_loop.simps)

lemma info_loop_valid:
  assumes B: "8 \<le> B" and v: "valid B h S fl"
  shows "b \<in> S \<Longrightarrow>
    \<exists>i'. info_loop B h p b i = Some (i', \<exists>c\<in>S. b \<le> c \<and> is_free B h c \<and> p = Some (c * B))"
proof (induction "numblocks h - b" arbitrary: b i rule: less_induct)
  case less
  note b = less.prems
  define found where "found b \<longleftrightarrow> (\<exists>c\<in>S. b \<le> c \<and> is_free B h c \<and> p = Some (c * B))" for b
  show ?case unfolding found_def [symmetric]
  proof (cases "b = numblocks h - 1")
    case True
    have n0: "nb B h b = 0" using valid_parts(1) [OF v] True by (simp add: chain_ok_def)
    have "\<not> found b"
    proof
      assume "found b"
      then obtain c where c: "c \<in> S" "b \<le> c" "is_free B h c" unfolding found_def by blast
      from valid_lt(1) [OF v c(1)] c(2) True have "c = numblocks h - 1" by simp
      with valid_free(3) [OF v] c(3) show False by simp
    qed
    then have "found b = False" by simp
    then show "\<exists>i'. info_loop B h p b i = Some (i', found b)"
      by (subst info_loop_alt) (simp add: n0)
  next
    case False
    note sc = valid_next [OF v b False]
    have n0: "nb B h b \<noteq> 0" using sc(2) by simp
    have lt: "numblocks h - nb B h b < numblocks h - b"
      using sc(2) valid_lt(1) [OF v sc(1)] by simp
    have between: "nb B h b \<le> c" if "c \<in> S" "b \<le> c" "c \<noteq> b" for c
      using chain_ok_between [OF valid_parts(1) [OF v] b that(1)] that(2,3) by auto
    have shift: "found b = found (nb B h b)" if "\<not> (is_free B h b \<and> p = Some (b * B))"
    proof
      assume "found b"
      then obtain c where c: "c \<in> S" "b \<le> c" "is_free B h c" "p = Some (c * B)"
        unfolding found_def by blast
      with that have "c \<noteq> b" by auto
      from between [OF c(1,2) this] c show "found (nb B h b)" unfolding found_def by blast
    next
      assume "found (nb B h b)"
      then obtain c where c: "c \<in> S" "nb B h b \<le> c" "is_free B h c" "p = Some (c * B)"
        unfolding found_def by blast
      with sc(2) have "b \<le> c" by simp
      with c show "found b" unfolding found_def by blast
    qed
    have IH: "\<exists>i'. info_loop B h p (nb B h b) j = Some (i', found (nb B h b))" for j
      using less.hyps [OF lt sc(1), of j] unfolding found_def .
    show "\<exists>i'. info_loop B h p b i = Some (i', found b)"
    proof (cases "is_free B h b \<and> p = Some (b * B)")
      case True
      then have "found b" unfolding found_def using b by blast
      then have "found b = True" by simp
      with True n0 show ?thesis
        by (subst info_loop_alt) (simp add: Let_def)
    next
      case other: False
      show ?thesis
      proof (cases "is_free B h b")
        case True
        with other have pne: "p \<noteq> Some (b * B)" by simp
        show ?thesis unfolding shift [OF other]
          by (subst info_loop_alt) (simp only: n0 True pne Let_def if_True if_False not_False_eq_True IH)
      next
        case False
        show ?thesis unfolding shift [OF other]
          by (subst info_loop_alt) (simp only: n0 False Let_def if_True if_False not_False_eq_True IH)
      qed
    qed
  qed
qed

lemma info_valid:
  assumes B: "8 \<le> B" and v: "valid B h S fl"
  shows "\<exists>i. umm_info B p h =
           Some (i, if \<exists>c\<in>S. is_free B h c \<and> p = Some (c * B) then p else None)"
proof -
  have n: "0 \<noteq> numblocks h - 1" using valid_parts(1) [OF v] by (simp add: chain_ok_def)
  have z: "0 \<in> S" using valid_parts(1) [OF v] by (simp add: chain_ok_def)
  note sc = valid_next [OF v z n]
  have raw: "UMM_NBLOCK B h 0 AND UMM_BLOCKNO_MASK = nb B h 0" by (simp add: nb_def)
  define found where "found \<longleftrightarrow> (\<exists>c\<in>S. is_free B h c \<and> p = Some (c * B))"
  have eq: "(\<exists>c\<in>S. nb B h 0 \<le> c \<and> is_free B h c \<and> p = Some (c * B)) \<longleftrightarrow> found"
    unfolding found_def
  proof
    assume "\<exists>c\<in>S. is_free B h c \<and> p = Some (c * B)"
    then obtain c where c: "c \<in> S" "is_free B h c" "p = Some (c * B)" by blast
    with valid_free(2) [OF v] have "c \<noteq> 0" by (intro notI) simp
    with chain_ok_between [OF valid_parts(1) [OF v] z c(1)] have "nb B h 0 \<le> c" by auto
    with c show "\<exists>c\<in>S. nb B h 0 \<le> c \<and> is_free B h c \<and> p = Some (c * B)" by blast
  qed blast
  from info_loop_valid [OF B v sc(1), of p info_zero, unfolded eq]
  obtain i' where "info_loop B h p (nb B h 0) info_zero = Some (i', found)" by blast
  then have "\<exists>i. umm_info B p h = Some (i, if found then p else None)"
    by (cases found) (simp_all add: umm_info_def raw)
  then show ?thesis unfolding found_def .
qed

text \<open>
  Claim C9, the counterexample. Block 1 of the example heap after one allocation is in the
  chain and used; its header is at offset 8. \<^verbatim>\<open>umm_info\<close> with that address as the probe
  returns \<^verbatim>\<open>NULL\<close>: the comparison with the probe stands inside the branch for free blocks.
\<close>

theorem info_used_block_counterexample:
  "1 \<in> chain 8 heap16_a \<and> \<not> is_free 8 heap16_a 1 \<and>
   map_option snd (umm_info 8 (Some (1 * 8)) heap16_a) = Some None"
proof -
  from reachable_heap_ok [OF _ heap16_a_reachable] obtain S fl where v: "valid 8 heap16_a S fl"
    unfolding heap_ok_def by auto
  have "\<not> (\<exists>c\<in>S. is_free 8 heap16_a c \<and> Some (1 * 8) = Some (c * 8))"
    using heap16_a_nb(6) by auto
  then have e: "(if \<exists>c\<in>S. is_free 8 heap16_a c \<and> Some (1 * 8) = Some (c * 8) then Some (1 * 8) else None)
      = (None :: nat option)" by (simp only: if_False)
  have "\<exists>i. umm_info 8 (Some (1 * 8)) heap16_a = Some (i, None)"
    using info_valid [OF _ v, of "Some (1 * 8)"] unfolding e by simp
  with heap16_a_chain(2) heap16_a_nb(6) show ?thesis by auto
qed

text \<open>
  Claim C9, amended. On a heap that satisfies the invariants, \<^verbatim>\<open>umm_info(p, force)\<close> returns
  \<open>p\<close> when \<open>p\<close> is the address of the header of a free block of the chain, and \<^verbatim>\<open>NULL\<close>
  otherwise: also when \<open>p\<close> is the address of the header of a used block or of one of the two
  sentinels. (\<open>force\<close> only selects what is logged.)
\<close>

theorem info_returns_free_block_header:
  assumes "8 \<le> B" and "heap_ok B h"
  shows "\<exists>i. umm_info B p h =
           Some (i, if \<exists>c\<in>chain B h. is_free B h c \<and> p = Some (c * B) then p else None)"
proof -
  from assms(2) obtain S fl where v: "valid B h S fl" unfolding heap_ok_def by blast
  from info_valid [OF assms(1) v] show ?thesis unfolding valid_chain [OF v] .
qed

theorem info_returns_free_block_header_witness:
  "heap_ok 8 heap16_a \<and> 4 \<in> chain 8 heap16_a \<and> is_free 8 heap16_a 4 \<and>
   map_option snd (umm_info 8 (Some (4 * 8)) heap16_a) = Some (Some (4 * 8)) \<and>
   map_option snd (umm_info 8 (Some (4 * 8 + 4)) heap16_a) = Some None"
proof -
  have ok: "heap_ok 8 heap16_a" using reachable_heap_ok [OF _ heap16_a_reachable] by simp
  have ch: "chain 8 heap16_a = {0, 1, 4, 15}"
  proof -
    have "valid 8 heap16 {0, 1, 15} [1]" using init_heap_valid [OF _ heap16_init] by (simp add: heap16_views)
    then have c16: "chain 8 heap16 = {0, 1, 15}" by (rule valid_chain)
    show ?thesis
    proof (rule equalityI)
      show "{0, 1, 4, 15} \<subseteq> chain 8 heap16_a" using heap16_a_chain by simp
      show "chain 8 heap16_a \<subseteq> {0, 1, 4, 15}"
      proof
        fix x assume "x \<in> chain 8 heap16_a"
        then show "x \<in> {0, 1, 4, 15}"
          by induction (auto simp: heap16_a_nb heap16_nb1)
      qed
    qed
  qed
  have yes: "\<exists>c\<in>chain 8 heap16_a. is_free 8 heap16_a c \<and> Some (4 * 8) = Some (c * 8)"
    using heap16_a_chain(3) heap16_a_nb(7) by auto
  have no: "\<not> (\<exists>c\<in>chain 8 heap16_a. is_free 8 heap16_a c \<and> Some (4 * 8 + 4) = Some (c * 8))"
    unfolding ch by simp
  from info_returns_free_block_header [OF _ ok, of "Some (4 * 8)"]
       info_returns_free_block_header [OF _ ok, of "Some (4 * 8 + 4)"] yes no
  have "map_option snd (umm_info 8 (Some (4 * 8)) heap16_a) = Some (Some (4 * 8))"
    "map_option snd (umm_info 8 (Some (4 * 8 + 4)) heap16_a) = Some None"
    by auto
  with ok heap16_a_chain(3) heap16_a_nb(7) show ?thesis by simp
qed

section \<open>The bytes the operations write\<close>

lemma touched_trans:
  assumes "touched h g \<subseteq> A" and "touched g h' \<subseteq> A'"
  shows "touched h h' \<subseteq> A \<union> A'"
proof
  fix x assume x: "x \<in> touched h h'"
  show "x \<in> A \<union> A'"
  proof (cases "mem g x = mem h x")
    case True
    with x have "x \<in> touched g h'" by (simp add: touched_def)
    with assms(2) show ?thesis by blast
  next
    case False
    then have "x \<in> touched h g" by (simp add: touched_def)
    with assms(1) show ?thesis by blast
  qed
qed

lemma touched_same: "touched h h = {}"
  by (simp add: touched_def)

lemma touched_wr16: "wr16 m a v x \<noteq> m x \<Longrightarrow> x = a \<or> x = a + 1"
  by (simp add: wr16_def split: if_splits)

lemma touched_set:
  "touched h (set_NBLOCK B b v h) \<subseteq> hdr B b" "touched h (set_PBLOCK B b v h) \<subseteq> hdr B b"
  "touched h (set_NFREE B b v h) \<subseteq> lnk B b" "touched h (set_PFREE B b v h) \<subseteq> lnk B b"
proof -
  show "touched h (set_NBLOCK B b v h) \<subseteq> hdr B b"
    using touched_wr16 [of "mem h" "b * B" v]
    by (fastforce simp: touched_def hdr_def set_NBLOCK_def)
  show "touched h (set_PBLOCK B b v h) \<subseteq> hdr B b"
    using touched_wr16 [of "mem h" "b * B + 2" v]
    by (fastforce simp: touched_def hdr_def set_PBLOCK_def)
  show "touched h (set_NFREE B b v h) \<subseteq> lnk B b"
    using touched_wr16 [of "mem h" "b * B + 4" v]
    by (fastforce simp: touched_def lnk_def set_NFREE_def)
  show "touched h (set_PFREE B b v h) \<subseteq> lnk B b"
    using touched_wr16 [of "mem h" "b * B + 6" v]
    by (fastforce simp: touched_def lnk_def set_PFREE_def)
qed

lemma touched_split:
  assumes "8 \<le> B" "0 < k"
  shows "touched h (umm_split_block B c k m h) \<subseteq> hdr B (c + k) \<union> hdr B (nb B h c) \<union> hdr B c"
proof -
  define h1 where "h1 = set_NBLOCK B (c + k) (nb B h c OR m) h"
  define h2 where "h2 = set_PBLOCK B (c + k) c h1"
  define h3 where "h3 = set_PBLOCK B (nb B h c) (c + k) h2"
  have e: "umm_split_block B c k m h = set_NBLOCK B c (c + k) h3"
    using assms
    by (simp add: umm_split_block_def Let_def nb_def [symmetric] view_simps h1_def h2_def h3_def)
  have "touched h h1 \<subseteq> hdr B (c + k)" unfolding h1_def by (rule touched_set)
  from touched_trans [OF this touched_set(2) [of h1 B "c + k" c, folded h2_def]]
  have "touched h h2 \<subseteq> hdr B (c + k)" by simp
  from touched_trans [OF this touched_set(2) [of h2 B "nb B h c" "c + k", folded h3_def]]
  have "touched h h3 \<subseteq> hdr B (c + k) \<union> hdr B (nb B h c)" .
  from touched_trans [OF this touched_set(1) [of h3 B c "c + k"]]
  show ?thesis unfolding e .
qed

lemma touched_disconnect:
  assumes "8 \<le> B"
  shows "touched h (umm_disconnect_from_free_list B n h)
           \<subseteq> lnk B (UMM_PFREE B h n) \<union> lnk B (UMM_NFREE B h n) \<union> hdr B n"
proof -
  define h1 where "h1 = set_NFREE B (UMM_PFREE B h n) (UMM_NFREE B h n) h"
  define h2 where "h2 = set_PFREE B (UMM_NFREE B h n) (UMM_PFREE B h1 n) h1"
  have i: "UMM_NFREE B h1 n = UMM_NFREE B h n"
    using assms by (simp add: h1_def view_simps)
  have e: "umm_disconnect_from_free_list B n h =
      set_NBLOCK B n (UMM_NBLOCK B h2 n AND (65535 - UMM_FREELIST_MASK)) h2"
    by (simp add: umm_disconnect_from_free_list_def Let_def h1_def [symmetric] i h2_def)
  have "touched h h1 \<subseteq> lnk B (UMM_PFREE B h n)" unfolding h1_def by (rule touched_set)
  from touched_trans [OF this touched_set(4) [of h1 B "UMM_NFREE B h n" "UMM_PFREE B h1 n", folded h2_def]]
  have "touched h h2 \<subseteq> lnk B (UMM_PFREE B h n) \<union> lnk B (UMM_NFREE B h n)" .
  from touched_trans [OF this touched_set(1) [of h2 B n]]
  show ?thesis unfolding e .
qed

lemma dll_links:
  "dll nf pf p xs \<Longrightarrow>
     nf p \<in> insert 0 (set xs) \<and> (\<forall>x\<in>set xs. nf x \<in> insert 0 (set xs) \<and> pf x \<in> insert p (set xs))"
proof (induction xs arbitrary: p)
  case Nil
  then show ?case by simp
next
  case (Cons y ys)
  from Cons.prems have y: "nf p = y" "pf y = p" and rest: "dll nf pf y ys" by simp_all
  from Cons.IH [OF rest] y show ?case by auto
qed

lemma valid_links:
  assumes v: "valid B h S fl"
  shows "UMM_NFREE B h 0 \<in> insert 0 (set fl)"
    and "x \<in> set fl \<Longrightarrow> UMM_NFREE B h x \<in> insert 0 (set fl)"
    and "x \<in> set fl \<Longrightarrow> UMM_PFREE B h x \<in> insert 0 (set fl)"
  using dll_links [OF valid_parts(3) [OF v]] by auto

text \<open>\<^verbatim>\<open>umm_assimilate_up\<close> of a used block of a valid heap, as the stores it makes.\<close>

lemma touched_assimilate_up:
  assumes B: "8 \<le> B" and v: "valid B h S fl"
    and c: "c \<in> S" "c \<noteq> numblocks h - 1" "\<not> is_free B h c"
  defines "n \<equiv> nb B h c"
  shows "touched h (umm_assimilate_up B c h) \<subseteq>
           (if is_free B h n
            then lnk B (UMM_PFREE B h n) \<union> lnk B (UMM_NFREE B h n) \<union> hdr B n
                   \<union> hdr B (nb B h n) \<union> hdr B c
            else {})"
proof (cases "is_free B h n")
  case False
  with assimilate_up_used [OF c(3)] show ?thesis by (simp add: n_def touched_same)
next
  case nfree: True
  define h1 where "h1 = umm_disconnect_from_free_list B n h"
  define h2 where "h2 = set_PBLOCK B (nb B h n) c h1"
  note sc = valid_next [OF v c(1,2), folded n_def]
  have raw: "UMM_NBLOCK B h c = n" using nb_used [OF c(3)] by (simp add: n_def)
  note e1 = disconnect_effect [OF B, of n h, folded h1_def]
  have raw1: "UMM_NBLOCK B h1 c = n"
    using nb_used [of B h1 c] c(3) sc(2) by (simp add: e1 n_def)
  have e: "umm_assimilate_up B c h = set_NBLOCK B c (nb B h n) h2"
    using nfree B
    by (simp add: assimilate_up_alt raw h1_def [symmetric] Let_def raw1 e1 view_simps h2_def)
  from touched_trans [OF touched_disconnect [OF B, of h n, folded h1_def]
      touched_set(2) [of h1 B "nb B h n" c, folded h2_def]]
  have "touched h h2 \<subseteq> lnk B (UMM_PFREE B h n) \<union> lnk B (UMM_NFREE B h n) \<union> hdr B n
          \<union> hdr B (nb B h n)" .
  from touched_trans [OF this touched_set(1) [of h2 B c "nb B h n"]]
  show ?thesis unfolding e using nfree by simp
qed

text \<open>
  \<^verbatim>\<open>umm_free_core\<close> of a used block whose predecessor is used too: after
  \<^verbatim>\<open>umm_assimilate_up\<close> the block is put at the head of the free list.
\<close>

lemma touched_free_core:
  assumes B: "8 \<le> B" and v: "valid B h S fl"
    and c: "c \<in> S" "c \<noteq> 0" "c \<noteq> numblocks h - 1" "\<not> is_free B h c"
    and pu: "\<not> is_free B h (UMM_PBLOCK B h c)"
  defines "g \<equiv> umm_assimilate_up B c h"
  shows "touched g (umm_free_core B (UMM_DATA B c) h)
           \<subseteq> lnk B (UMM_NFREE B g 0) \<union> lnk B c \<union> lnk B 0 \<union> hdr B c"
proof -
  define n where "n = nb B h c"
  define p where "p = UMM_PBLOCK B h c"
  define T where "T = (if is_free B h n then S - {n} else S)"
  note up0 = assimilate_up_summary [OF B v c(1,3,4)]
  have up: "nb B g = (nb B h)(c := (if is_free B h n then nb B h n else n))"
    "is_free B g = (is_free B h)(n := False)"
    "\<forall>i\<in>T. UMM_PBLOCK B g i = (if i = nb B g c then c else UMM_PBLOCK B h i)"
    "c \<in> T"
    using up0(2,3,4,6) unfolding g_def T_def n_def by blast+
  note sc = valid_next [OF v c(1,3), folded n_def]
  note pr = valid_pred [OF v c(1,2), folded p_def]
  have clt: "c < 32768" using valid_lt(2) [OF v c(1)] by simp
  have cc: "u16 (UMM_DATA B c div B) = c" using B clt by (simp add: data_div u16_id)
  have pn: "p \<noteq> n" "p \<noteq> c" using pr(2) sc(2) by simp_all
  have cg: "c < nb B g c"
  proof (cases "is_free B h n")
    case True
    then have "n \<noteq> numblocks h - 1" using valid_free(3) [OF v] by auto
    from valid_next(2) [OF v sc(1) this] sc(2) True show ?thesis by (simp add: up(1))
  next
    case False
    with sc(2) show ?thesis by (simp add: up(1))
  qed
  have pbc: "UMM_PBLOCK B g c = p" using up(3) up(4) cg by (auto simp: p_def)
  have gfree: "\<not> is_free B g p" using pn pu by (simp add: up(2) p_def)
  define h2 where "h2 = set_PFREE B (UMM_NFREE B g 0) c g"
  define h3 where "h3 = set_NFREE B c (UMM_NFREE B g 0) h2"
  define h4 where "h4 = set_PFREE B c 0 h3"
  define h5 where "h5 = set_NFREE B 0 c h4"
  have e: "umm_free_core B (UMM_DATA B c) h = set_NBLOCK B c (UMM_NBLOCK B g c OR UMM_FREELIST_MASK) h5"
    using B gfree
    by (simp add: free_core_alt cc g_def [symmetric] Let_def pbc view_simps h2_def h3_def h4_def h5_def)
  have "touched g h2 \<subseteq> lnk B (UMM_NFREE B g 0)" unfolding h2_def by (rule touched_set)
  from touched_trans [OF this touched_set(3) [of h2 B c "UMM_NFREE B g 0", folded h3_def]]
  have "touched g h3 \<subseteq> lnk B (UMM_NFREE B g 0) \<union> lnk B c" .
  from touched_trans [OF this touched_set(4) [of h3 B c 0, folded h4_def]]
  have "touched g h4 \<subseteq> lnk B (UMM_NFREE B g 0) \<union> lnk B c" by simp
  from touched_trans [OF this touched_set(3) [of h4 B 0 c, folded h5_def]]
  have "touched g h5 \<subseteq> lnk B (UMM_NFREE B g 0) \<union> lnk B c \<union> lnk B 0" .
  from touched_trans [OF this touched_set(1) [of h5 B c]]
  show ?thesis unfolding e .
qed

text \<open>
  Shrinking a live allocation in place: \<^verbatim>\<open>umm_split_block\<close> at \<open>c + k\<close> and
  \<^verbatim>\<open>umm_free_core\<close> of the tail leave block \<open>c\<close> live with \<open>k\<close> blocks, and write no byte of
  the body of those \<open>k\<close> blocks.
\<close>

lemma shrink_frame:
  assumes B: "8 \<le> B" and v: "valid B h S fl"
    and c: "c \<in> S" "c \<noteq> 0" "c \<noteq> numblocks h - 1" "\<not> is_free B h c"
    and k: "0 < k" "c + k < nb B h c"
  defines "h' \<equiv> umm_free_core B (UMM_DATA B (c + k)) (umm_split_block B c k 0 h)"
  shows "\<forall>x. c * B + 4 \<le> x \<and> x < (c + k) * B \<longrightarrow> mem h' x = mem h x"
    and "\<exists>S' fl'. valid B h' S' fl' \<and> c \<in> S'"
    and "nb B h' c = c + k" and "\<not> is_free B h' c" and "numblocks h' = numblocks h"
proof -
  define d where "d = c + k"
  define n where "n = nb B h c"
  define g where "g = umm_split_block B c k 0 h"
  define g1 where "g1 = umm_assimilate_up B d g"
  have h': "h' = umm_free_core B (UMM_DATA B d) g" by (simp add: h'_def d_def g_def)
  have dn: "c < d" "d < n" using k by (simp_all add: d_def n_def)
  have vg: "valid B g (insert d S) fl"
    unfolding g_def d_def using B v c(1,3,4) k by (rule valid_split_used)
  have d32: "c + k < 32768" using k(2) nb_lt [of B h c] by simp
  have m: "(0::nat) = 0 \<or> 0 = UMM_FREELIST_MASK" by simp
  have z: "(0 = UMM_FREELIST_MASK) = False" by (simp add: UMM_FREELIST_MASK_def)
  note e = split_effect [OF B k(1) d32 m, of h, folded g_def d_def n_def, unfolded z]
  note sc = valid_next [OF v c(1,3), folded n_def]
  have nlt: "n < numblocks h" using valid_lt(1) [OF v sc(1)] .
  have dg: "d \<in> insert d S" "d \<noteq> 0" "d \<noteq> numblocks g - 1" "\<not> is_free B g d"
    using dn nlt by (simp_all add: e)
  have pd: "UMM_PBLOCK B g d = c" using dn by (simp add: e)
  have cg: "\<not> is_free B g c" by (simp add: e)
  have pu: "\<not> is_free B g (UMM_PBLOCK B g d)" using cg by (simp add: pd)
  have nbd: "nb B g d = n" using dn by (simp add: e)
  have fn: "is_free B g n = is_free B h n" using dn by (simp add: e)
  \<comment> \<open>the chain and the free list hold no index inside the block\<close>
  have farS: "x < c \<or> d \<le> x" if "x \<in> S" "x \<noteq> c" for x
  proof (cases "c < x")
    case True
    from chain_ok_between [OF valid_parts(1) [OF v] c(1) that(1) True] dn show ?thesis
      by (simp add: n_def)
  next
    case False
    with that(2) show ?thesis by simp
  qed
  have farfl: "x < c \<or> d \<le> x" if "x \<in> insert 0 (set fl)" for x
  proof (cases "x = 0")
    case True
    with c(2) show ?thesis by simp
  next
    case False
    with that have "x \<in> set fl" by simp
    with valid_free(1) [OF v, of x] c(4) have "x \<in> S" "x \<noteq> c" by auto
    then show ?thesis by (rule farS)
  qed
  \<comment> \<open>what the three steps write\<close>
  have t1: "touched h g \<subseteq> hdr B d \<union> hdr B n \<union> hdr B c"
    unfolding g_def d_def n_def using B k(1) by (rule touched_split)
  have t2: "touched g g1 \<subseteq>
           (if is_free B h n
            then lnk B (UMM_PFREE B h n) \<union> lnk B (UMM_NFREE B h n) \<union> hdr B n
                   \<union> hdr B (nb B h n) \<union> hdr B d
            else {})"
  proof -
    have eqs: "nb B g n = nb B h n" "UMM_PFREE B g n = UMM_PFREE B h n"
      "UMM_NFREE B g n = UMM_NFREE B h n"
      using dn by (simp_all add: e)
    from touched_assimilate_up [OF B vg dg(1,3,4), folded g1_def, unfolded nbd fn eqs]
    show ?thesis .
  qed
  have t3: "touched g1 h' \<subseteq> lnk B (UMM_NFREE B g1 0) \<union> lnk B d \<union> lnk B 0 \<union> hdr B d"
    unfolding h' g1_def using B vg dg pu by (rule touched_free_core)
  \<comment> \<open>none of these blocks lies inside block \<open>c\<close>\<close>
  have H: "x \<notin> hdr B b" if "c * B + 4 \<le> x" "x < d * B" "b \<le> c \<or> d \<le> b" for x b
  proof
    assume "x \<in> hdr B b"
    then have x: "b * B \<le> x" "x < b * B + 4" by (simp_all add: hdr_def)
    from that(3) show False
    proof
      assume "b \<le> c"
      then have "b * B \<le> c * B" by (rule mult_le_mono1)
      with x that(1) show False by linarith
    next
      assume "d \<le> b"
      then have "d * B \<le> b * B" by (rule mult_le_mono1)
      with x that(2) show False by linarith
    qed
  qed
  have L: "x \<notin> lnk B b" if "c * B + 4 \<le> x" "x < d * B" "b < c \<or> d \<le> b" for x b
  proof
    assume "x \<in> lnk B b"
    then have x: "b * B + 4 \<le> x" "x < b * B + 8" by (simp_all add: lnk_def)
    from that(3) show False
    proof
      assume "b < c"
      then have "Suc b \<le> c" by simp
      then have "Suc b * B \<le> c * B" by (rule mult_le_mono1)
      then have "b * B + B \<le> c * B" by simp
      with x that(1) B show False by linarith
    next
      assume "d \<le> b"
      then have "d * B \<le> b * B" by (rule mult_le_mono1)
      with x that(2) show False by linarith
    qed
  qed
  have far_n: "n \<le> c \<or> d \<le> n" "d \<le> c \<or> d \<le> d" "c \<le> c \<or> d \<le> c" using dn by simp_all
  have nf0: "UMM_NFREE B g1 0 < c \<or> d \<le> UMM_NFREE B g1 0"
  proof -
    note up = assimilate_up_summary [OF B vg dg(1,3,4), folded g1_def, unfolded nbd]
    from up(1) obtain fl1 where v1: "valid B g1 (if is_free B g n then insert d S - {n} else insert d S) fl1"
      by blast
    have "x \<in> insert 0 (set fl)" if "x \<in> set fl1" for x
    proof -
      from valid_free(1) [OF v1, of x] that
      have x: "x \<in> insert d S" "is_free B g1 x" by (auto split: if_splits)
      from x(2) have fx: "is_free B g x" by (simp add: up(3) split: if_splits)
      with dg(4) cg have "x \<noteq> d" "x \<noteq> c" by auto
      with x(1) fx have "x \<in> S" "is_free B h x" by (simp_all add: e)
      with valid_free(1) [OF v, of x] show ?thesis by simp
    qed
    with valid_links(1) [OF v1] have "UMM_NFREE B g1 0 \<in> insert 0 (set fl)" by auto
    then show ?thesis by (rule farfl)
  qed
  show "\<forall>x. c * B + 4 \<le> x \<and> x < (c + k) * B \<longrightarrow> mem h' x = mem h x"
  proof (intro allI impI)
    fix x assume "c * B + 4 \<le> x \<and> x < (c + k) * B"
    then have x: "c * B + 4 \<le> x" "x < d * B" by (simp_all add: d_def)
    have a1: "x \<notin> touched h g"
      using t1 H [OF x far_n(1)] H [OF x far_n(2)] H [OF x far_n(3)] by blast
    have a2: "x \<notin> touched g g1"
    proof (cases "is_free B h n")
      case False
      with t2 show ?thesis by simp
    next
      case True
      then have nfl: "n \<in> set fl" using valid_free(1) [OF v, of n] sc(1) by simp
      have nl: "n \<noteq> numblocks h - 1" using valid_free(3) [OF v] True by auto
      have "n < nb B h n" using valid_next(2) [OF v sc(1) nl] .
      with dn have fnn: "nb B h n \<le> c \<or> d \<le> nb B h n" by simp
      note fp = farfl [OF valid_links(3) [OF v nfl]] farfl [OF valid_links(2) [OF v nfl]]
      from t2 True L [OF x fp(1)] L [OF x fp(2)] H [OF x far_n(1)] H [OF x fnn] H [OF x far_n(2)]
      show ?thesis by auto
    qed
    have far0: "0 < c \<or> d \<le> 0" using c(2) by simp
    have fard: "d < c \<or> d \<le> d" by simp
    have a3: "x \<notin> touched g1 h'"
      using t3 L [OF x nf0] L [OF x fard] L [OF x far0] H [OF x far_n(2)] by blast
    from a1 a2 a3 show "mem h' x = mem h x" by (simp add: touched_def)
  qed
  note fc = free_core_valid [OF B vg dg, folded h', unfolded nbd pd]
  have Sc: "c \<in> insert d S - (if is_free B g n then {n} else {}) - (if is_free B g c then {d} else {})"
    using c(1) dn by auto
  from fc(1) Sc show "\<exists>S' fl'. valid B h' S' fl' \<and> c \<in> S'" by blast
  from fc(6) Sc dn cg have "nb B h' c = nb B g c \<and> is_free B h' c = is_free B g c" by auto
  then show "nb B h' c = c + k" "\<not> is_free B h' c" by (simp_all add: e d_def)
  from fc(2) show "numblocks h' = numblocks h" by (simp add: e)
qed

section \<open>Reallocate to a smaller size\<close>

lemma umm_blocks_least:
  assumes B: "8 \<le> B" and m: "1 \<le> m" and sz: "sz \<le> m * B - 4"
  shows "umm_blocks B sz \<le> m"
proof (cases "sz \<le> B - 4")
  case True
  with m show ?thesis by (simp add: umm_blocks_closed [OF B])
next
  case False
  define r where "r = sz - (B - 4) - 1"
  have s: "sz = r + 1 + (B - 4)" using False by (simp add: r_def)
  from m obtain m' where m': "m = Suc m'" by (cases m) simp_all
  have "m * B = m' * B + B" by (simp add: m')
  with sz s B have "r < m' * B" by linarith
  then have "r div B < m'" by (rule less_mult_imp_div_less)
  then have "r div B + 2 \<le> m" by (simp add: m')
  with False show ?thesis by (simp add: umm_blocks_closed [OF B] r_def)
qed

lemma rd16_low: "rd16 m a = v \<Longrightarrow> m a = of_nat (v mod 256)"
proof -
  assume "rd16 m a = v"
  then have "v mod 256 = unat (m a) mod 256" by (auto simp: rd16_def)
  also have "\<dots> = unat (m a)"
    using unsigned_less [of "m a", where ?'a = nat] by simp
  finally show ?thesis by simp
qed

lemma two_masks:
  "Suc (Suc 0) AND 32768 = 0" "Suc (Suc 0) AND 32767 = 2" "Suc (Suc 0) OR 32768 = 32770"
  "Suc (Suc 0) AND 32767 = Suc (Suc 0)"
proof -
  have "(2::nat) AND 32768 = 0" "(2::nat) AND 32767 = 2" "(2::nat) OR 32768 = 32770" by simp_all
  then show "Suc (Suc 0) AND 32768 = 0" "Suc (Suc 0) AND 32767 = 2" "Suc (Suc 0) OR 32768 = 32770"
    "Suc (Suc 0) AND 32767 = Suc (Suc 0)"
    by (simp_all only: numeral_2_eq_2)
qed

lemma realloc4:
  "\<exists>h'. umm_realloc 8 UMM_BEST_FIT (Some 12) 4 heap16_a = Some (h', Some 12) \<and>
     UMM_NBLOCK 8 h' 2 = 32783"
  by (simp add: umm_realloc_def blocks20 heap16_a_views realloc_finish_def umm_free_core_def eval_simps
        two_masks(1,2,3))

lemma heap16_a_bytes: "block_bytes 8 heap16_a 12 = 20"
  by (simp add: block_bytes_def heap16_nb1)

text \<open>
  Claim C6, the counterexample. In the example heap the allocation at offset 12 has 3 blocks
  and 20 usable bytes. \<^verbatim>\<open>umm_realloc\<close> of it to 4 bytes returns the same pointer, splits the
  block after its first block and frees the tail: the header of the new free block 2 lies
  at offsets 16 to 19, which were bytes 4 to 7 of the old contents. The byte at offset 16
  was 0 and is \<open>0x0F\<close> after the call.
\<close>

theorem realloc_shrink_counterexample:
  "allocated 8 heap16_a 12 \<and> block_bytes 8 heap16_a 12 = 20 \<and>
   map_option snd (umm_realloc 8 UMM_BEST_FIT (Some 12) 4 heap16_a) = Some (Some 12) \<and>
   mem heap16_a (12 + 4) = 0 \<and>
   mem (fst (the (umm_realloc 8 UMM_BEST_FIT (Some 12) 4 heap16_a))) (12 + 4) = 15"
proof -
  from realloc4 obtain h' where r: "umm_realloc 8 UMM_BEST_FIT (Some 12) 4 heap16_a = Some (h', Some 12)"
    and n: "UMM_NBLOCK 8 h' 2 = 32783" by blast
  have "rd16 (mem h') 16 = 32783" using n by (simp add: UMM_NBLOCK_def)
  from rd16_low [OF this] have after: "mem h' 16 = 15" by simp
  have "UMM_NBLOCK 8 heap16_a 2 = 0" by (simp add: heap16_a_views)
  then have "rd16 (mem heap16_a) 16 = 0" by (simp add: UMM_NBLOCK_def)
  from rd16_low [OF this] have before: "mem heap16_a 16 = 0" by simp
  from heap16_a_allocated heap16_a_bytes r before after show ?thesis by simp
qed

text \<open>
  Claim C6, amended. For a live allocation \<open>a\<close> of a heap that satisfies the invariants and a
  size \<open>sz\<close> with \<open>0 < sz \<le> bytes(a)\<close>, \<^verbatim>\<open>umm_realloc(a, sz)\<close> returns \<open>a\<close>. Afterwards \<open>a\<close> is a
  live allocation of \<open>umm_blocks sz\<close> blocks, with \<open>umm_blocks sz * B - 4\<close> usable bytes: at
  least \<open>sz\<close> and at most the bytes it had. Those bytes of the old contents are preserved;
  what lay behind them belongs to the freed tail.
\<close>

theorem realloc_shrink_keeps_prefix:
  assumes "8 \<le> B" and "heap_ok B h" and "allocated B h a" and "0 < sz"
    and "sz \<le> block_bytes B h a"
  shows "\<exists>h'. umm_realloc B policy (Some a) sz h = Some (h', Some a) \<and>
           allocated B h' a \<and> block_bytes B h' a = umm_blocks B sz * B - 4 \<and>
           sz \<le> block_bytes B h' a \<and> block_bytes B h' a \<le> block_bytes B h a \<and>
           (\<forall>i < block_bytes B h' a. mem h' (a + i) = mem h (a + i))"
proof -
  note B = assms(1)
  from assms(2) obtain S fl where v: "valid B h S fl" unfolding heap_ok_def by blast
  from v assms(3) obtain c where c: "c \<in> S" "a = UMM_DATA B c" "c \<noteq> 0" "c \<noteq> numblocks h - 1"
    "\<not> is_free B h c"
    by (rule allocatedD)
  define k where "k = umm_blocks B sz"
  define bsz where "bsz = nb B h c - c"
  have d: "a div B = c" using B by (simp add: c(2) data_div)
  have lt: "c < nb B h c" using valid_next(2) [OF v c(1,4)] .
  then have b1: "1 \<le> bsz" by (simp add: bsz_def)
  have bytes: "block_bytes B h a = bsz * B - 4" by (simp add: block_bytes_def d bsz_def)
  have kle: "k \<le> bsz" unfolding k_def using B b1 assms(5) [unfolded bytes] by (rule umm_blocks_least)
  have k1: "1 \<le> k" unfolding k_def using B by (rule umm_blocks_ge1)
  have szn: "sz \<noteq> 0" using assms(4) by simp
  note core = realloc_core [OF B v c(1,3,4,5) szn, of policy, folded c(2) k_def bsz_def]
  have r: "umm_realloc B policy (Some a) sz h = Some (realloc_finish B k bsz c (Some a) h)"
    unfolding core using kle by simp
  have "k * B \<le> bsz * B" using kle by (rule mult_le_mono1)
  then have mono: "k * B - 4 \<le> bsz * B - 4" by linarith
  show ?thesis
  proof (cases "k < bsz")
    case False
    with kle have e: "k = bsz" by simp
    then have "umm_realloc B policy (Some a) sz h = Some (h, Some a)"
      unfolding r by (simp add: realloc_finish_def)
    with assms(3,5) show ?thesis unfolding k_def [symmetric] by (simp add: bytes e)
  next
    case True
    define h' where "h' = umm_free_core B (UMM_DATA B (c + k)) (umm_split_block B c k 0 h)"
    have kk: "0 < k" "c + k < nb B h c" using k1 True by (simp_all add: bsz_def)
    note sf = shrink_frame [OF B v c(1,3,4,5) kk, folded h'_def]
    have r': "umm_realloc B policy (Some a) sz h = Some (h', Some a)"
      unfolding r using True by (simp add: realloc_finish_def h'_def)
    from sf(2) obtain S' fl' where v': "valid B h' S' fl'" and cS: "c \<in> S'" by blast
    have "c \<in> chain B h'" unfolding valid_chain [OF v'] by (rule cS)
    then have live: "allocated B h' a"
      unfolding allocated_def using c(2,3,4) sf(4,5) by auto
    have bytes': "block_bytes B h' a = k * B - 4" by (simp add: block_bytes_def d sf(3))
    have "bsz < 32768" unfolding bsz_def using nb_lt [of B h c] by simp
    with True have "umm_blocks B sz < 32767" by (simp add: k_def)
    from umm_blocks_fits [OF B this] have fits: "sz \<le> k * B - 4" by (simp add: k_def)
    have keep: "mem h' (a + i) = mem h (a + i)" if "i < k * B - 4" for i
    proof -
      have "(c + k) * B = c * B + k * B" by (simp add: add_mult_distrib)
      with that have "c * B + 4 \<le> a + i \<and> a + i < (c + k) * B"
        by (simp add: c(2) UMM_DATA_def)
      with sf(1) show ?thesis by blast
    qed
    from r' live bytes' fits mono keep show ?thesis
      unfolding k_def [symmetric] by (simp add: bytes)
  qed
qed

theorem realloc_shrink_keeps_prefix_witness:
  "heap_ok 8 heap16_a \<and> allocated 8 heap16_a 12 \<and> block_bytes 8 heap16_a 12 = 20 \<and>
   (\<exists>h'. umm_realloc 8 UMM_BEST_FIT (Some 12) 4 heap16_a = Some (h', Some 12) \<and>
           allocated 8 h' 12 \<and> block_bytes 8 h' 12 = umm_blocks 8 4 * 8 - 4 \<and>
           4 \<le> block_bytes 8 h' 12 \<and> block_bytes 8 h' 12 \<le> block_bytes 8 heap16_a 12 \<and>
           (\<forall>i < block_bytes 8 h' 12. mem h' (12 + i) = mem heap16_a (12 + i)))"
  using realloc_shrink_keeps_prefix [of 8 heap16_a 12 4 UMM_BEST_FIT]
    reachable_heap_ok [OF _ heap16_a_reachable] heap16_a_allocated heap16_a_bytes
  by simp

end
